theory Spec2Isabelle
  imports Main "HOL-Library.Word"
begin

unbundle bit_operations_syntax

section \<open>mcu-max: data model\<close>

text \<open>
  The engine of \<^verbatim>\<open>src/src/mcu-max.c\<close>, built without \<^verbatim>\<open>MCUMAX_HASHING_ENABLED\<close>
  (the macro is commented out in the source).

  Machine integers are modelled as \<^typ>\<open>int\<close> with the wrap-around written out:
  a \<^verbatim>\<open>uint8_t\<close> holds a value in \<open>0..255\<close> and every store into one that can leave
  this range is followed by \<open>mod 256\<close>; a \<^verbatim>\<open>uint32_t\<close> counter wraps \<open>mod 2 ^ 32\<close>.
  C's integer promotion turns every \<^verbatim>\<open>uint8_t\<close> and \<^verbatim>\<open>int8_t\<close> operand into an
  \<^verbatim>\<open>int\<close> before arithmetic, so differences such as \<^verbatim>\<open>square_to - en_passant_square\<close>
  are plain integer differences, and \<open>AND\<close>, \<open>OR\<close>, \<open>XOR\<close>, \<open>NOT\<close> on \<^typ>\<open>int\<close>
  are the two's complement operations. \<^verbatim>\<open>x >> k\<close> on a signed value is the
  arithmetic shift, \<open>x div 2 ^ k\<close>. The \<^verbatim>\<open>int32_t\<close> scores stay far from the
  32-bit limits and are unbounded integers here.
\<close>

abbreviation (input) MCUMAX_SQUARE_INVALID :: int where "MCUMAX_SQUARE_INVALID \<equiv> 0x80"
abbreviation (input) MCUMAX_BOARD_MASK :: int where "MCUMAX_BOARD_MASK \<equiv> 0x88"
abbreviation (input) MCUMAX_BOARD_WHITE :: int where "MCUMAX_BOARD_WHITE \<equiv> 0x8"
abbreviation (input) MCUMAX_BOARD_BLACK :: int where "MCUMAX_BOARD_BLACK \<equiv> 0x10"
abbreviation (input) MCUMAX_PIECE_MOVED :: int where "MCUMAX_PIECE_MOVED \<equiv> 0x20"
abbreviation (input) MCUMAX_SCORE_MAX :: int where "MCUMAX_SCORE_MAX \<equiv> 8000"
abbreviation (input) MCUMAX_DEPTH_MAX :: int where "MCUMAX_DEPTH_MAX \<equiv> 99"

text \<open>Piece types (bits 0-2) and the colour bit of \<^verbatim>\<open>mcumax_get_piece\<close>.\<close>

abbreviation (input) MCUMAX_EMPTY :: int where "MCUMAX_EMPTY \<equiv> 0"
abbreviation (input) MCUMAX_PAWN_UPSTREAM :: int where "MCUMAX_PAWN_UPSTREAM \<equiv> 1"
abbreviation (input) MCUMAX_PAWN_DOWNSTREAM :: int where "MCUMAX_PAWN_DOWNSTREAM \<equiv> 2"
abbreviation (input) MCUMAX_KNIGHT :: int where "MCUMAX_KNIGHT \<equiv> 3"
abbreviation (input) MCUMAX_KING :: int where "MCUMAX_KING \<equiv> 4"
abbreviation (input) MCUMAX_BISHOP :: int where "MCUMAX_BISHOP \<equiv> 5"
abbreviation (input) MCUMAX_ROOK :: int where "MCUMAX_ROOK \<equiv> 6"
abbreviation (input) MCUMAX_QUEEN :: int where "MCUMAX_QUEEN \<equiv> 7"
abbreviation (input) MCUMAX_BLACK :: int where "MCUMAX_BLACK \<equiv> 0x8"

datatype mcumax_mode =
  MCUMAX_INTERNAL_NODE | MCUMAX_SEARCH_VALID_MOVES | MCUMAX_SEARCH_BEST_MOVE | MCUMAX_PLAY_MOVE

text \<open>\<^verbatim>\<open>mcumax_move\<close>: the pair \<open>(from, to)\<close>.\<close>

type_synonym mcumax_move = "int \<times> int"

abbreviation (input) MCUMAX_MOVE_INVALID :: mcumax_move where
  "MCUMAX_MOVE_INVALID \<equiv> (MCUMAX_SQUARE_INVALID, MCUMAX_SQUARE_INVALID)"

text \<open>
  \<^verbatim>\<open>mcumax_struct\<close>, the single global \<^verbatim>\<open>mcumax\<close>. The fields carry the prefix
  \<open>mcumax_\<close>, as the C code writes \<^verbatim>\<open>mcumax.board\<close>, which also keeps them apart from
  the local variables of \<^verbatim>\<open>mcumax_search\<close> of the same name. \<open>mcumax_board\<close> has the
  \<open>0x80 + 1\<close> cells of the array. The caller's move buffer is a list (its length is
  the number of entries the caller allocated) and \<open>None\<close> is the \<^verbatim>\<open>NULL\<close> pointer.
  The model covers the engine with no user callback installed
  (\<^verbatim>\<open>user_callback == NULL\<close>, the value the zero-initialised global starts with), so
  the fields \<^verbatim>\<open>user_callback\<close> and \<^verbatim>\<open>user_data\<close> are left out and the first
  statement of \<^verbatim>\<open>mcumax_search\<close> is a no-op.
\<close>

record mcumax_struct =
  mcumax_board :: "int list"
  mcumax_current_side :: int
  mcumax_score :: int
  mcumax_en_passant_square :: int
  mcumax_non_pawn_material :: int
  mcumax_square_from :: int
  mcumax_square_to :: int
  mcumax_node_count :: int
  mcumax_node_max :: int
  mcumax_depth_max :: int
  mcumax_stop_search :: bool
  mcumax_valid_moves_buffer :: "mcumax_move list option"
  mcumax_valid_moves_buffer_size :: int
  mcumax_valid_moves_num :: int

text \<open>Reading a cell of the board: \<^verbatim>\<open>mcumax.board[i]\<close>.\<close>

definition bd :: "mcumax_struct \<Rightarrow> int \<Rightarrow> int" where
  "bd s i = mcumax_board s ! nat i"

text \<open>Writing a cell: \<^verbatim>\<open>mcumax.board[i] = v\<close>, the value truncated to a \<^verbatim>\<open>uint8_t\<close>.\<close>

definition bd_set :: "int \<Rightarrow> int \<Rightarrow> mcumax_struct \<Rightarrow> mcumax_struct" where
  "bd_set i v s = s\<lparr>mcumax_board := (mcumax_board s)[nat i := v mod 256]\<rparr>"

section \<open>Piece accessor\<close>

text \<open>
  \<^verbatim>\<open>mcumax_get_piece\<close> (mcu-max.c, 632-638); the argument is a \<^verbatim>\<open>uint8_t\<close>.
\<close>

definition mcumax_get_piece :: "mcumax_struct \<Rightarrow> int \<Rightarrow> int" where
  "mcumax_get_piece s square =
     (if square AND MCUMAX_BOARD_MASK \<noteq> 0 then MCUMAX_EMPTY
      else (bd s square AND 0xf) XOR MCUMAX_BLACK)"

section \<open>In-check probe\<close>

text \<open>
  \<^verbatim>\<open>is_in_check\<close> (mcu-max.c, 891-990). The king scan: the inner loop over \<open>x\<close>
  stops at the first king of the side in the rank, the outer loop over \<open>y\<close> stops
  once a king square has been found.
\<close>

fun find_king_x :: "mcumax_struct \<Rightarrow> int \<Rightarrow> int \<Rightarrow> nat \<Rightarrow> int \<Rightarrow> int" where
  "find_king_x s king_mask y 0 king_square = king_square"
| "find_king_x s king_mask y (Suc k) king_square =
     (let x = 8 - int (Suc k);
          sq = (y * 16 + x) mod 256;
          raw = bd s sq
      in if raw AND king_mask \<noteq> 0 \<and> raw AND 0b111 = MCUMAX_KING then sq
         else find_king_x s king_mask y k king_square)"

fun find_king_y :: "mcumax_struct \<Rightarrow> int \<Rightarrow> nat \<Rightarrow> int \<Rightarrow> int" where
  "find_king_y s king_mask 0 king_square = king_square"
| "find_king_y s king_mask (Suc k) king_square =
     (let y = 8 - int (Suc k);
          king_square = find_king_x s king_mask y 8 king_square
      in if king_square \<noteq> MCUMAX_SQUARE_INVALID then king_square
         else find_king_y s king_mask k king_square)"

text \<open>
  One ray from the king: \<^verbatim>\<open>while (1)\<close> with \<open>current_sq\<close> an \<^verbatim>\<open>int\<close>. The ray is
  walked only from a square inside the array and in one of the eight directions of
  the table, so it leaves the board after at most 7 steps; the bound \<open>k\<close> counts the
  steps left and is started at 8.
\<close>

fun ray_attack :: "mcumax_struct \<Rightarrow> int \<Rightarrow> nat \<Rightarrow> int \<Rightarrow> nat \<Rightarrow> int \<Rightarrow> bool option" where
  "ray_attack s enemy_mask d dir 0 current_sq = None"
| "ray_attack s enemy_mask d dir (Suc k) current_sq =
     (let current_sq = current_sq + dir
      in if current_sq AND 0x88 \<noteq> 0 then Some False
         else let raw = bd s current_sq
              in if raw \<noteq> 0 then
                   (if raw AND enemy_mask \<noteq> 0 then
                      (let type = raw AND 0b111
                       in if d < 4 \<and> (type = MCUMAX_ROOK \<or> type = MCUMAX_QUEEN) then Some True
                          else if d \<ge> 4 \<and> (type = MCUMAX_BISHOP \<or> type = MCUMAX_QUEEN) then Some True
                          else Some False)
                    else Some False)
                 else ray_attack s enemy_mask d dir k current_sq)"

definition directions :: "int list" where
  "directions = [1, -1, 16, -16, 15, -15, 17, -17]"

definition knight_moves :: "int list" where
  "knight_moves = [14, 18, 31, 33, -14, -18, -31, -33]"

definition king_moves :: "int list" where
  "king_moves = [1, -1, 16, -16, 15, -15, 17, -17]"

text \<open>The loop over the eight rays; \<open>Some True\<close> is the \<^verbatim>\<open>return true\<close> out of it.\<close>

fun rays_attack :: "mcumax_struct \<Rightarrow> int \<Rightarrow> int \<Rightarrow> nat list \<Rightarrow> bool option" where
  "rays_attack s enemy_mask king_square [] = Some False"
| "rays_attack s enemy_mask king_square (d # ds) =
     (case ray_attack s enemy_mask d (directions ! d) 8 king_square of
        None \<Rightarrow> None
      | Some True \<Rightarrow> Some True
      | Some False \<Rightarrow> rays_attack s enemy_mask king_square ds)"

definition knight_attack :: "mcumax_struct \<Rightarrow> int \<Rightarrow> int \<Rightarrow> bool" where
  "knight_attack s enemy_mask king_square =
     list_ex (\<lambda>m.
        let sq = king_square + m
        in sq AND 0x88 = 0 \<and> bd s sq AND enemy_mask \<noteq> 0 \<and> bd s sq AND 0b111 = MCUMAX_KNIGHT)
       knight_moves"

definition pawn_attack :: "mcumax_struct \<Rightarrow> int \<Rightarrow> int \<Rightarrow> int \<Rightarrow> bool" where
  "pawn_attack s side enemy_mask king_square =
     (let pawn_dir = (if side = MCUMAX_BOARD_WHITE then -16 else 16)
      in list_ex (\<lambda>a.
           let sq = king_square + a
           in sq AND 0x88 = 0 \<and> bd s sq AND enemy_mask \<noteq> 0 \<and>
              (let type = bd s sq AND 0b111
               in (side = MCUMAX_BOARD_WHITE \<and> type = MCUMAX_PAWN_DOWNSTREAM) \<or>
                  (side = MCUMAX_BOARD_BLACK \<and> type = MCUMAX_PAWN_UPSTREAM)))
           [pawn_dir - 1, pawn_dir + 1])"

definition king_attack :: "mcumax_struct \<Rightarrow> int \<Rightarrow> int \<Rightarrow> bool" where
  "king_attack s enemy_mask king_square =
     list_ex (\<lambda>m.
        let sq = king_square + m
        in sq AND 0x88 = 0 \<and> bd s sq AND enemy_mask \<noteq> 0 \<and> bd s sq AND 0b111 = MCUMAX_KING)
       king_moves"

text \<open>
  \<^verbatim>\<open>is_in_check\<close>. \<open>None\<close> would be a ray that has not left the board within its
  bound; the function reads the board only.
\<close>

definition is_in_check :: "mcumax_struct \<Rightarrow> int \<Rightarrow> bool option" where
  "is_in_check s side =
     (let king_mask = (if side = MCUMAX_BOARD_WHITE then MCUMAX_BOARD_WHITE else MCUMAX_BOARD_BLACK);
          enemy_mask = (if side = MCUMAX_BOARD_WHITE then MCUMAX_BOARD_BLACK else MCUMAX_BOARD_WHITE);
          king_square = find_king_y s king_mask 8 MCUMAX_SQUARE_INVALID
      in if king_square = MCUMAX_SQUARE_INVALID then Some False
         else case rays_attack s enemy_mask king_square [0, 1, 2, 3, 4, 5, 6, 7] of
                None \<Rightarrow> None
              | Some True \<Rightarrow> Some True
              | Some False \<Rightarrow>
                  if knight_attack s enemy_mask king_square then Some True
                  else if pawn_attack s side enemy_mask king_square then Some True
                  else if king_attack s enemy_mask king_square then Some True
                  else Some False)"

section \<open>The search\<close>

subsection \<open>Tables\<close>

definition mcumax_capture_values :: "int list" where
  "mcumax_capture_values = [0, 2, 2, 7, -1, 8, 12, 23]"

definition mcumax_step_vectors_indices :: "int list" where
  "mcumax_step_vectors_indices = [0, 7, -1, 11, 6, 8, 3, 6]"

definition mcumax_step_vectors :: "int list" where
  "mcumax_step_vectors =
     [-16, -15, -17, 0,
      1, 16, 0,
      1, 16, 15, 17, 0,
      14, 18, 31, 33, 0]"

definition mcumax_board_setup :: "int list" where
  "mcumax_board_setup =
     [MCUMAX_ROOK, MCUMAX_KNIGHT, MCUMAX_BISHOP, MCUMAX_QUEEN,
      MCUMAX_KING, MCUMAX_BISHOP, MCUMAX_KNIGHT, MCUMAX_ROOK]"

text \<open>The value of a C condition used as a number.\<close>

definition c_int :: "bool \<Rightarrow> int" where
  "c_int b = (if b then 1 else 0)"

subsection \<open>Parameters, local variables and control flow of \<^verbatim>\<open>mcumax_search\<close>\<close>

text \<open>The six parameters of \<^verbatim>\<open>mcumax_search\<close> (mcu-max.c, 107-112).\<close>

record params =
  alpha :: int
  beta :: int
  score :: int
  en_passant_square :: int
  depth :: int
  mode :: mcumax_mode

text \<open>The local variables of \<^verbatim>\<open>mcumax_search\<close> (mcu-max.c, 117-151).\<close>

record locals =
  iter_depth :: int
  iter_score :: int
  iter_square_from :: int
  iter_square_to :: int
  square_start :: int
  square_from :: int
  square_to :: int
  replay_move :: int
  null_move_score :: int
  scan_piece :: int
  scan_piece_type :: int
  step_vector :: int
  step_vector_index :: int
  castling_skip_square :: int
  castling_rook_square :: int
  capture_square :: int
  capture_piece :: int
  capture_piece_value :: int
  step_depth :: int
  step_alpha :: int
  step_score :: int
  step_score_new :: int

text \<open>
  The recursive call, as seen from the loops: the callee with its parameters and the
  engine state, giving the returned score and the state it leaves. \<open>None\<close> means no
  result: the bound on the depth of the recursion and on the iterations of the loops
  was too small, or the call wrote outside the caller's move buffer.
\<close>

type_synonym search_fun = "params \<Rightarrow> mcumax_struct \<Rightarrow> (int \<times> mcumax_struct) option"

text \<open>
  How one pass through the body of the ray loop \<^verbatim>\<open>do { ... } while (!capture_piece)\<close>
  ends: \<^verbatim>\<open>break\<close>, the loop condition, \<^verbatim>\<open>goto replay\<close>, \<^verbatim>\<open>goto cutoff\<close> or
  \<^verbatim>\<open>return beta\<close>.
\<close>

datatype ctl = Break | Continue | GotoReplay | GotoCutoff | ReturnBeta int

text \<open>
  How a loop of the move generator ends: it runs to its end, it is left by
  \<^verbatim>\<open>goto cutoff\<close>, or the function returns from inside it.
\<close>

datatype flow = Next locals mcumax_struct | Cutoff locals mcumax_struct | Return int mcumax_struct

definition toggle_side :: "mcumax_struct \<Rightarrow> mcumax_struct" where
  "toggle_side s = s\<lparr>mcumax_current_side := mcumax_current_side s XOR 0x18\<rparr>"

subsection \<open>One step along a ray\<close>

text \<open>
  mcu-max.c, 276-305: the destination (the previous best move when \<open>replay_move\<close>
  is set), the board edge, the bad-castling test, the en-passant shift of the
  capture square, and the test for an own piece or a bad pawn move. The result is
  \<open>True\<close> where the code leaves the ray by \<^verbatim>\<open>break\<close>.
\<close>

definition step_begin :: "params \<Rightarrow> locals \<Rightarrow> mcumax_struct \<Rightarrow> bool \<times> locals" where
  "step_begin p l s =
     (let sq = (if replay_move l \<noteq> 0 then iter_square_to l XOR replay_move l
                else (square_to l + step_vector l) mod 256);
          l = l\<lparr>square_to := sq, capture_square := sq\<rparr>
      in if square_to l AND MCUMAX_BOARD_MASK \<noteq> 0 then (True, l)
         else
           let l = (if en_passant_square p \<noteq> MCUMAX_SQUARE_INVALID \<and>
                       bd s (en_passant_square p) \<noteq> 0 \<and>
                       square_to l - en_passant_square p < 2 \<and>
                       en_passant_square p - square_to l < 2
                    then l\<lparr>iter_score := MCUMAX_SCORE_MAX\<rparr> else l);
               l = (if scan_piece_type l < 3 \<and> square_to l = en_passant_square p
                    then l\<lparr>capture_square := capture_square l XOR 16\<rparr> else l);
               l = l\<lparr>capture_piece := bd s (capture_square l)\<rparr>
           in if capture_piece l AND mcumax_current_side s \<noteq> 0 \<or>
                 (scan_piece_type l < 3 \<and>
                  c_int ((square_to l - square_from l) AND 0b111 = 0) - c_int (capture_piece l = 0) \<noteq> 0)
              then (True, l) else (False, l))"

text \<open>mcu-max.c, 307-316: the value of the captured piece, and the king capture.\<close>

definition step_value :: "locals \<Rightarrow> locals" where
  "step_value l =
     (let l = l\<lparr>capture_piece_value :=
                  37 * (mcumax_capture_values ! nat (capture_piece l AND 0b111)) +
                  (capture_piece l AND 0xc0)\<rparr>
      in if capture_piece_value l < 0
         then l\<lparr>iter_score := MCUMAX_SCORE_MAX, iter_depth := MCUMAX_DEPTH_MAX - 1\<rparr>
         else l)"

text \<open>
  mcu-max.c, 331-407: the move is made on the board and scored, and the depth of the
  reply search is chosen. The statements are taken in groups, in the order of the
  code. First the centre score (332-335), read from the weights before the board
  changes.
\<close>

definition center_score :: "locals \<Rightarrow> mcumax_struct \<Rightarrow> int" where
  "center_score l s =
     (if scan_piece_type l < 6
      then bd s (square_from l + 0x8) - bd s (square_to l + 0x8)
      else 0)"

text \<open>mcu-max.c, 337-342: the three squares are cleared and the piece is put down, moved.\<close>

definition move_make :: "locals \<Rightarrow> mcumax_struct \<Rightarrow> mcumax_struct" where
  "move_make l s =
     bd_set (square_to l) (scan_piece l OR MCUMAX_PIECE_MOVED)
       (bd_set (castling_rook_square l) 0
          (bd_set (capture_square l) 0
             (bd_set (square_from l) 0 s)))"

text \<open>mcu-max.c, 344-349: castling puts the rook on the skipped square.\<close>

definition castle_rook :: "locals \<Rightarrow> mcumax_struct \<Rightarrow> locals \<times> mcumax_struct" where
  "castle_rook l s =
     (if castling_rook_square l AND MCUMAX_BOARD_MASK = 0
      then (l\<lparr>step_score := step_score l + 50\<rparr>,
            bd_set (castling_skip_square l) (mcumax_current_side s + 6) s)
      else (l, s))"

text \<open>mcu-max.c, 351-355: a king move costs 20 while little material has been captured.\<close>

definition king_freeze :: "locals \<Rightarrow> mcumax_struct \<Rightarrow> locals" where
  "king_freeze l s =
     l\<lparr>step_score := step_score l -
          (if scan_piece_type l \<noteq> 4 \<or> mcumax_non_pawn_material s > 30 then 0 else 20)\<rparr>"

text \<open>
  mcu-max.c, 360-370: the pawn structure term that is subtracted from \<open>step_score\<close>;
  it reads the board after the move has been made, as the code does.
\<close>

definition pawn_structure :: "locals \<Rightarrow> mcumax_struct \<Rightarrow> int" where
  "pawn_structure l s =
     9 * (c_int ((square_from l - 2) AND MCUMAX_BOARD_MASK \<noteq> 0 \<or>
                 bd s (square_from l - 2) - scan_piece l \<noteq> 0) +
          c_int ((square_from l + 2) AND MCUMAX_BOARD_MASK \<noteq> 0 \<or>
                 bd s (square_from l + 2) - scan_piece l \<noteq> 0) -
          1 +
          c_int (bd s (square_from l XOR 0x10) = mcumax_current_side s + 36)) -
     mcumax_non_pawn_material s div 4"

text \<open>mcu-max.c, 373-377: the promotion or passer bonus that goes into \<open>step_alpha\<close>.\<close>

definition promotion :: "locals \<Rightarrow> int" where
  "promotion l =
     (if (square_to l + step_vector l + 1) AND MCUMAX_SQUARE_INVALID \<noteq> 0
      then 647 - scan_piece_type l
      else 2 * (scan_piece l AND (square_to l + 0x10) AND 0x20))"

text \<open>mcu-max.c, 357-381: the pawn terms; the bonus is added to the cell of the pawn.\<close>

definition move_pawn :: "locals \<Rightarrow> mcumax_struct \<Rightarrow> locals \<times> mcumax_struct" where
  "move_pawn l s =
     (if scan_piece_type l < 3
      then (l\<lparr>step_score := step_score l - pawn_structure l s,
              step_alpha := promotion l,
              capture_piece_value := capture_piece_value l + promotion l\<rparr>,
            bd_set (square_to l) (bd s (square_to l) + promotion l) s)
      else (l, s))"

text \<open>
  mcu-max.c, 388-407: the new score and alpha, the depth of the reply search with
  the reduction of late non-captures, and the extension when in check.
\<close>

definition reply_depth :: "params \<Rightarrow> locals \<Rightarrow> mcumax_struct \<Rightarrow> locals" where
  "reply_depth p l s =
     l\<lparr>step_score := step_score l + (score p + capture_piece_value l),
       step_alpha := (if iter_score l > alpha p then iter_score l else alpha p),
       step_depth :=
         (if \<not> (mcumax_non_pawn_material s > 30 \<or>
                 null_move_score l - MCUMAX_SCORE_MAX \<noteq> 0 \<or>
                 iter_depth l < 3 \<or>
                 (capture_piece l \<noteq> 0 \<and> scan_piece_type l \<noteq> 4))
          then iter_depth l
          else (iter_depth l - 1 -
                c_int (iter_depth l > 5 \<and> scan_piece_type l > 2 \<and>
                       capture_piece l = 0 \<and> replay_move l = 0)) mod 256)\<rparr>"

definition move_apply :: "params \<Rightarrow> locals \<Rightarrow> mcumax_struct \<Rightarrow> locals \<times> mcumax_struct" where
  "move_apply p l s =
     (case castle_rook (l\<lparr>step_score := center_score l s\<rparr>) (move_make l s) of (l, s) \<Rightarrow>
      case move_pawn (king_freeze l s) s of (l, s) \<Rightarrow>
        (reply_depth p l s, s))"

text \<open>
  mcu-max.c, 410-429: the reply is searched with the side changed, or the move is
  scored statically when it is futile; the \<^verbatim>\<open>do ... while\<close> searches again, one ply
  deeper, while the score exceeds \<open>alpha\<close> and the depth stays below \<open>iter_depth\<close>.
\<close>

primrec futility :: "search_fun \<Rightarrow> nat \<Rightarrow> params \<Rightarrow> locals \<Rightarrow> mcumax_struct \<Rightarrow>
    (locals \<times> mcumax_struct) option" where
  "futility rec 0 p l s = None"
| "futility rec (Suc n) p l s =
     (let s = toggle_side s
      in case (if mode p = MCUMAX_SEARCH_VALID_MOVES \<or> step_depth l > 2 \<or> step_score l > step_alpha l
               then map_option (\<lambda>(v, s'). (- v, s'))
                      (rec \<lparr>alpha = - beta p, beta = - step_alpha l, score = - step_score l,
                            en_passant_square = castling_skip_square l, depth = step_depth l,
                            mode = MCUMAX_INTERNAL_NODE\<rparr> s)
               else Some (step_score l, s)) of
           None \<Rightarrow> None
         | Some (v, s) \<Rightarrow>
             let l = l\<lparr>step_score_new := v\<rparr>;
                 s = toggle_side s
             in if step_score_new l > alpha p then
                  (let l = l\<lparr>step_depth := (step_depth l + 1) mod 256\<rparr>
                   in if step_depth l < iter_depth l then futility rec n p l s else Some (l, s))
                else Some (l, s))"

text \<open>mcu-max.c, 439-456: the move stays on the board and the engine state follows it.\<close>

definition move_commit :: "params \<Rightarrow> locals \<Rightarrow> mcumax_struct \<Rightarrow> mcumax_struct" where
  "move_commit p l s =
     toggle_side
       (s\<lparr>mcumax_score := - score p - capture_piece_value l,
          mcumax_en_passant_square := castling_skip_square l,
          mcumax_non_pawn_material := mcumax_non_pawn_material s + capture_piece_value l div 128\<rparr>)"

text \<open>mcu-max.c, 464-468: the move is taken back.\<close>

definition move_undo :: "locals \<Rightarrow> mcumax_struct \<Rightarrow> mcumax_struct" where
  "move_undo l s =
     (let s = bd_set (castling_rook_square l) (mcumax_current_side s + 6) s;
          s = bd_set (square_to l) 0 s;
          s = bd_set (castling_skip_square l) 0 s;
          s = bd_set (square_from l) (scan_piece l) s;
          s = bd_set (capture_square l) (capture_piece l) s
      in s)"

text \<open>
  mcu-max.c, 484-489: the move goes into the caller's buffer when its index is below
  \<open>valid_moves_buffer_size\<close>, and is counted in any case. A store through \<^verbatim>\<open>NULL\<close> or
  past the end of the caller's buffer has no result.
\<close>

definition valid_move_store :: "mcumax_move \<Rightarrow> mcumax_struct \<Rightarrow> mcumax_struct option" where
  "valid_move_store move s =
     (case (if mcumax_valid_moves_num s < mcumax_valid_moves_buffer_size s then
              (case mcumax_valid_moves_buffer s of
                 None \<Rightarrow> None
               | Some buffer \<Rightarrow>
                   if nat (mcumax_valid_moves_num s) < length buffer
                   then Some (s\<lparr>mcumax_valid_moves_buffer :=
                                  Some (buffer[nat (mcumax_valid_moves_num s) := move])\<rparr>)
                   else None)
            else Some s) of
        None \<Rightarrow> None
      | Some s \<Rightarrow> Some (s\<lparr>mcumax_valid_moves_num := (mcumax_valid_moves_num s + 1) mod 2 ^ 32\<rparr>))"

text \<open>
  mcu-max.c, 329-491: the body of \<^verbatim>\<open>if ((iter_depth - !capture_piece) > 1)\<close>. The
  first component of the result is the value of a \<^verbatim>\<open>return\<close> from inside it.
\<close>

definition step_move :: "search_fun \<Rightarrow> nat \<Rightarrow> params \<Rightarrow> locals \<Rightarrow> mcumax_struct \<Rightarrow>
    (int option \<times> locals \<times> mcumax_struct) option" where
  "step_move rec n p l s =
     (case move_apply p l s of (l, s) \<Rightarrow>
     (case futility rec n p l s of
        None \<Rightarrow> None
      | Some (l, s) \<Rightarrow>
          let l = l\<lparr>step_score := step_score_new l\<rparr>
          in if mode p = MCUMAX_PLAY_MOVE \<and> step_score l \<noteq> - MCUMAX_SCORE_MAX \<and>
                square_from l = mcumax_square_from s \<and> square_to l = mcumax_square_to s
             then Some (Some (beta p), l, move_commit p l s)
             else
               let s = move_undo l s
               in if mode p = MCUMAX_SEARCH_BEST_MOVE \<and> step_score l \<noteq> - MCUMAX_SCORE_MAX \<and>
                     square_from l = mcumax_square_from s \<and> square_to l = mcumax_square_to s
                  then Some (Some (beta p), l, s)
                  else if mode p = MCUMAX_SEARCH_VALID_MOVES \<and> step_score l \<noteq> - MCUMAX_SCORE_MAX \<and>
                          mcumax_square_from s = MCUMAX_SQUARE_INVALID \<and>
                          iter_depth l = 3 \<and> replay_move l = 0
                  then map_option (\<lambda>s. (None, l, s))
                         (valid_move_store (square_from l, square_to l) s)
                  else Some (None, l, s)))"

definition fake_capture :: "locals \<Rightarrow> locals" where
  "fake_capture l = l\<lparr>capture_piece := (capture_piece l + c_int (scan_piece_type l < 5)) mod 256\<rparr>"

text \<open>
  mcu-max.c, 493-530: the new best move, the jump back to \<^verbatim>\<open>replay\<close>, and the test
  that lets a ray go on for a second step: a first step of a piece that has not
  moved, which is a pawn or a king stepping sideways towards an unmoved rook in the
  corner with two empty squares next to it. \<open>castling_rook_square\<close> is assigned inside
  the condition, when the evaluation reaches it.
\<close>

definition step_end :: "locals \<Rightarrow> mcumax_struct \<Rightarrow> ctl \<times> locals" where
  "step_end l s =
     (let l = (if step_score l > iter_score l
               then l\<lparr>iter_score := step_score l,
                      iter_square_from := square_from l,
                      iter_square_to := square_to l OR (castling_skip_square l AND MCUMAX_SQUARE_INVALID)\<rparr>
               else l)
      in if replay_move l \<noteq> 0 then (GotoReplay, l\<lparr>replay_move := 0\<rparr>)
         else if square_from l + step_vector l - square_to l \<noteq> 0 \<or>
                 scan_piece l AND MCUMAX_PIECE_MOVED \<noteq> 0
         then (Continue, fake_capture l)
         else if scan_piece_type l > 2 then
           (if scan_piece_type l \<noteq> 4 \<or> step_vector_index l \<noteq> 7 then (Continue, fake_capture l)
            else
              let l = l\<lparr>castling_rook_square :=
                         ((square_from l + 3) XOR ((step_vector l div 2) AND 0b111)) mod 256\<rparr>
              in if bd s (castling_rook_square l) - mcumax_current_side s - 6 \<noteq> 0 \<or>
                    bd s (castling_rook_square l XOR 1) \<noteq> 0 \<or>
                    bd s (castling_rook_square l XOR 2) \<noteq> 0
                 then (Continue, fake_capture l)
                 else (Continue, l\<lparr>castling_skip_square := square_to l\<rparr>))
         else (Continue, l\<lparr>castling_skip_square := square_to l\<rparr>))"

text \<open>mcu-max.c, 274-533: one pass through the body of the ray loop.\<close>

definition step :: "search_fun \<Rightarrow> nat \<Rightarrow> params \<Rightarrow> locals \<Rightarrow> mcumax_struct \<Rightarrow>
    (ctl \<times> locals \<times> mcumax_struct) option" where
  "step rec n p l s =
     (case step_begin p l s of
        (True, l) \<Rightarrow> Some (Break, l, s)
      | (False, l) \<Rightarrow>
          let l = step_value l
          in if iter_score l \<ge> beta p \<and> iter_depth l > 1 then Some (GotoCutoff, l, s)
             else
               let l = l\<lparr>step_score := (if iter_depth l \<noteq> 1 then score p
                                          else capture_piece_value l - scan_piece_type l)\<rparr>
               in (case (if iter_depth l - c_int (capture_piece l = 0) > 1
                         then step_move rec n p l s
                         else Some (None, l, s)) of
                     None \<Rightarrow> None
                   | Some (Some v, l, s) \<Rightarrow> Some (ReturnBeta v, l, s)
                   | Some (None, l, s) \<Rightarrow>
                       (case step_end l s of (c, l) \<Rightarrow> Some (c, l, s))))"

subsection \<open>The loops of the move generator\<close>

text \<open>The label \<^verbatim>\<open>replay\<close> (mcu-max.c, 266-271): a ray starts at the piece.\<close>

definition ray_start :: "locals \<Rightarrow> locals" where
  "ray_start l = l\<lparr>square_to := square_from l,
                   castling_skip_square := MCUMAX_SQUARE_INVALID,
                   castling_rook_square := MCUMAX_SQUARE_INVALID\<rparr>"

text \<open>mcu-max.c, 274-533: the ray loop, from the label \<^verbatim>\<open>replay\<close> on.\<close>

primrec ray :: "search_fun \<Rightarrow> nat \<Rightarrow> params \<Rightarrow> locals \<Rightarrow> mcumax_struct \<Rightarrow> flow option" where
  "ray rec 0 p l s = None"
| "ray rec (Suc n) p l s =
     (case step rec n p l s of
        None \<Rightarrow> None
      | Some (Break, l, s) \<Rightarrow> Some (Next l s)
      | Some (GotoCutoff, l, s) \<Rightarrow> Some (Cutoff l s)
      | Some (ReturnBeta v, l, s) \<Rightarrow> Some (Return v s)
      | Some (GotoReplay, l, s) \<Rightarrow> ray rec n p (ray_start l) s
      | Some (Continue, l, s) \<Rightarrow>
          if capture_piece l = 0 then ray rec n p l s else Some (Next l s))"

text \<open>
  mcu-max.c, 261-264: the condition of the loop over the directions. A slider or
  leaper of type above 2 takes each vector of the table twice, first negated.
\<close>

definition next_vector :: "locals \<Rightarrow> locals" where
  "next_vector l =
     (if scan_piece_type l > 2 \<and> step_vector l < 0 then l\<lparr>step_vector := - step_vector l\<rparr>
      else let l = l\<lparr>step_vector_index := step_vector_index l + 1\<rparr>
           in l\<lparr>step_vector := - (mcumax_step_vectors ! nat (step_vector_index l))\<rparr>)"

primrec vectors :: "search_fun \<Rightarrow> nat \<Rightarrow> params \<Rightarrow> locals \<Rightarrow> mcumax_struct \<Rightarrow> flow option" where
  "vectors rec 0 p l s = None"
| "vectors rec (Suc n) p l s =
     (let l = next_vector l
      in if step_vector l = 0 then Some (Next l s)
         else case ray rec n p (ray_start l) s of
                None \<Rightarrow> None
              | Some (Next l s) \<Rightarrow> vectors rec n p l s
              | Some (Cutoff l s) \<Rightarrow> Some (Cutoff l s)
              | Some (Return v s) \<Rightarrow> Some (Return v s))"

text \<open>mcu-max.c, 246-539: the scan of the board, \<^verbatim>\<open>do { ... } while (... != square_start)\<close>.\<close>

primrec squares :: "search_fun \<Rightarrow> nat \<Rightarrow> params \<Rightarrow> locals \<Rightarrow> mcumax_struct \<Rightarrow> flow option" where
  "squares rec 0 p l s = None"
| "squares rec (Suc n) p l s =
     (let l = l\<lparr>scan_piece := bd s (square_from l)\<rparr>
      in case (if scan_piece l AND mcumax_current_side s \<noteq> 0
               then vectors rec n p
                      (l\<lparr>scan_piece_type := scan_piece l AND 0b111,
                         step_vector := scan_piece l AND 0b111,
                         step_vector_index :=
                           mcumax_step_vectors_indices ! nat (scan_piece l AND 0b111)\<rparr>) s
               else Some (Next l s)) of
           None \<Rightarrow> None
         | Some (Next l s) \<Rightarrow>
             let l = l\<lparr>square_from := ((square_from l + 9) AND NOT MCUMAX_BOARD_MASK) mod 256\<rparr>
             in if square_from l \<noteq> square_start l then squares rec n p l s else Some (Next l s)
         | Some (Cutoff l s) \<Rightarrow> Some (Cutoff l s)
         | Some (Return v s) \<Rightarrow> Some (Return v s))"

subsection \<open>Iterative deepening\<close>

text \<open>
  mcu-max.c, 197-205: the condition of the loop \<^verbatim>\<open>while (...)\<close>, with its side
  effects: \<open>iter_depth\<close> is incremented after the first comparison, and at the root,
  once the node or depth budget is used up, the best move found is stored in
  \<open>mcumax.square_from\<close>, \<open>mcumax.square_to\<close> and one more iteration at depth 3 is run.
\<close>

definition iter_cond :: "params \<Rightarrow> locals \<Rightarrow> mcumax_struct \<Rightarrow> bool \<times> locals \<times> mcumax_struct" where
  "iter_cond p l s =
     (let d = iter_depth l;
          l = l\<lparr>iter_depth := (iter_depth l + 1) mod 256\<rparr>
      in if d < depth p then (True, l, s)
         else if iter_depth l < 3 then (True, l, s)
         else if mode p \<noteq> MCUMAX_INTERNAL_NODE \<and> mcumax_square_from s = MCUMAX_SQUARE_INVALID then
           (if mcumax_node_count s < mcumax_node_max s \<and> iter_depth l \<le> mcumax_depth_max s
            then (True, l, s)
            else (True, l\<lparr>iter_depth := 3\<rparr>,
                  s\<lparr>mcumax_square_from := iter_square_from l,
                    mcumax_square_to := (iter_square_to l AND NOT MCUMAX_BOARD_MASK) mod 256\<rparr>))
         else (False, l, s))"

text \<open>
  mcu-max.c, 222-230: the null move. The side is changed around the call; the call
  is made when \<open>iter_depth > 2\<close> and \<open>beta\<close> is not \<open>-MCUMAX_SCORE_MAX\<close>.
\<close>

definition null_move :: "search_fun \<Rightarrow> params \<Rightarrow> locals \<Rightarrow> mcumax_struct \<Rightarrow>
    (int \<times> mcumax_struct) option" where
  "null_move rec p l s =
     (if iter_depth l > 2 \<and> beta p \<noteq> - MCUMAX_SCORE_MAX
      then rec \<lparr>alpha = - beta p, beta = 1 - beta p, score = - score p,
                en_passant_square = MCUMAX_SQUARE_INVALID,
                depth = (iter_depth l - 3) mod 256,
                mode = MCUMAX_INTERNAL_NODE\<rparr> s
      else Some (MCUMAX_SCORE_MAX, s))"

text \<open>mcu-max.c, 235-241: the score an iteration starts from.\<close>

definition prune_score :: "params \<Rightarrow> locals \<Rightarrow> mcumax_struct \<Rightarrow> int" where
  "prune_score p l s =
     (if - null_move_score l < beta p \<or> mcumax_non_pawn_material s > 35
      then (if iter_depth l - 2 \<noteq> 0 then - MCUMAX_SCORE_MAX else score p)
      else - null_move_score l)"

text \<open>
  mcu-max.c, 210-217: the scan starts at the previous best move, or at square 0 when
  the valid moves are listed, and \<open>replay_move\<close> asks for the previous best move to
  be tried first unless it was a castling or a double step.
\<close>

definition scan_start :: "params \<Rightarrow> locals \<Rightarrow> locals" where
  "scan_start p l =
     (let start = (if mode p \<noteq> MCUMAX_SEARCH_VALID_MOVES then iter_square_from l else 0)
      in l\<lparr>square_from := start, square_start := start,
            replay_move := iter_square_to l AND MCUMAX_SQUARE_INVALID\<rparr>)"

text \<open>mcu-max.c, 541-545: at the label \<^verbatim>\<open>cutoff\<close>, a position without a move scores 0.\<close>

definition mate_score :: "locals \<Rightarrow> locals" where
  "mate_score l =
     (if iter_score l = - MCUMAX_SCORE_MAX \<and> null_move_score l \<noteq> MCUMAX_SCORE_MAX
      then l\<lparr>iter_score := 0\<rparr> else l)"

text \<open>
  mcu-max.c, 246-545: the scan of the board and the label \<^verbatim>\<open>cutoff\<close>. \<open>None\<close> in
  the first component of the result means that the iteration ran to its end; a
  number is the value of a \<^verbatim>\<open>return\<close> from inside it.
\<close>

definition scan :: "search_fun \<Rightarrow> nat \<Rightarrow> params \<Rightarrow> locals \<Rightarrow> mcumax_struct \<Rightarrow>
    (int option \<times> locals \<times> mcumax_struct) option" where
  "scan rec n p l s =
     (case squares rec n p l s of
        None \<Rightarrow> None
      | Some (Return v s') \<Rightarrow> Some (Some v, l, s')
      | Some (Next l' s') \<Rightarrow> Some (None, mate_score l', s')
      | Some (Cutoff l' s') \<Rightarrow> Some (None, mate_score l', s'))"

text \<open>mcu-max.c, 243-244: the node count.\<close>

definition count_node :: "mcumax_struct \<Rightarrow> mcumax_struct" where
  "count_node s = s\<lparr>mcumax_node_count := (mcumax_node_count s + 1) mod 2 ^ 32\<rparr>"

text \<open>
  mcu-max.c, 210-545: one iteration: the null move with the side changed around it,
  the score the iteration starts from, the node count and the scan.
\<close>

definition iteration :: "search_fun \<Rightarrow> nat \<Rightarrow> params \<Rightarrow> locals \<Rightarrow> mcumax_struct \<Rightarrow>
    (int option \<times> locals \<times> mcumax_struct) option" where
  "iteration rec n p l s =
     (case null_move rec p (scan_start p l) (toggle_side s) of
        None \<Rightarrow> None
      | Some (v, s') \<Rightarrow>
          scan rec n p
            ((scan_start p l)\<lparr>null_move_score := v,
               iter_score := prune_score p ((scan_start p l)\<lparr>null_move_score := v\<rparr>) (toggle_side s')\<rparr>)
            (count_node (toggle_side s')))"

text \<open>
  mcu-max.c, 197-576: the iterative deepening loop and the final
  \<^verbatim>\<open>return iter_score += iter_score < score\<close>.
\<close>

primrec iterate :: "search_fun \<Rightarrow> nat \<Rightarrow> params \<Rightarrow> locals \<Rightarrow> mcumax_struct \<Rightarrow>
    (int \<times> mcumax_struct) option" where
  "iterate rec 0 p l s = None"
| "iterate rec (Suc n) p l s =
     (case iter_cond p l s of (go, l, s) \<Rightarrow>
        if \<not> go \<or> mcumax_stop_search s
        then Some (iter_score l + c_int (iter_score l < score p), s)
        else (case iteration rec n p l s of
                None \<Rightarrow> None
              | Some (Some v, l, s) \<Rightarrow> Some (v, s)
              | Some (None, l, s) \<Rightarrow> iterate rec n p l s))"

text \<open>
  The local variables at the start of \<^verbatim>\<open>mcumax_search\<close>: the four \<open>iter_\<close> variables
  are set to 0 (mcu-max.c, 188-191); the others are not initialised and each one is
  assigned before it is read, so their start value, 0 here, is never used.
\<close>

definition locals_init :: locals where
  "locals_init =
     \<lparr>iter_depth = 0, iter_score = 0, iter_square_from = 0, iter_square_to = 0,
      square_start = 0, square_from = 0, square_to = 0, replay_move = 0,
      null_move_score = 0, scan_piece = 0, scan_piece_type = 0, step_vector = 0,
      step_vector_index = 0, castling_skip_square = 0, castling_rook_square = 0,
      capture_square = 0, capture_piece = 0, capture_piece_value = 0, step_depth = 0,
      step_alpha = 0, step_score = 0, step_score_new = 0\<rparr>"

text \<open>mcu-max.c, 153-155: the window is adjusted by the delay bonus.\<close>

definition adjust_window :: "params \<Rightarrow> params" where
  "adjust_window p =
     (let p = p\<lparr>alpha := alpha p - c_int (alpha p < score p)\<rparr>
      in p\<lparr>beta := beta p - c_int (beta p \<le> score p)\<rparr>)"

text \<open>
  \<^verbatim>\<open>mcumax_search\<close> (mcu-max.c, 107-577). The first argument bounds the depth of the
  recursion and, at each level, the number of iterations of every loop; with a bound
  that is too small the result is \<open>None\<close>.
\<close>

primrec mcumax_search :: "nat \<Rightarrow> params \<Rightarrow> mcumax_struct \<Rightarrow> (int \<times> mcumax_struct) option" where
  "mcumax_search 0 p s = None"
| "mcumax_search (Suc n) p s = iterate (mcumax_search n) n (adjust_window p) locals_init s"

section \<open>Public operations\<close>

text \<open>
  The global \<^verbatim>\<open>mcumax\<close> has static storage and starts zeroed; the caller's buffer
  pointer is \<^verbatim>\<open>NULL\<close>.
\<close>

definition mcumax_zero :: mcumax_struct where
  "mcumax_zero =
     \<lparr>mcumax_board = replicate (0x80 + 1) 0, mcumax_current_side = 0, mcumax_score = 0,
      mcumax_en_passant_square = 0, mcumax_non_pawn_material = 0,
      mcumax_square_from = 0, mcumax_square_to = 0, mcumax_node_count = 0,
      mcumax_node_max = 0, mcumax_depth_max = 0, mcumax_stop_search = False,
      mcumax_valid_moves_buffer = None, mcumax_valid_moves_buffer_size = 0,
      mcumax_valid_moves_num = 0\<rparr>"

text \<open>\<^verbatim>\<open>mcumax_init\<close> (mcu-max.c, 581-620): the body of the loop over \<open>x\<close>, then the function.\<close>

definition init_file :: "int \<Rightarrow> mcumax_struct \<Rightarrow> mcumax_struct" where
  "init_file x s =
     (let s = bd_set (0x10 * 0 + x) (MCUMAX_BOARD_BLACK OR mcumax_board_setup ! nat x) s;
          s = bd_set (0x10 * 1 + x) (MCUMAX_BOARD_BLACK OR MCUMAX_PAWN_DOWNSTREAM) s;
          s = fold (\<lambda>y. bd_set (0x10 * y + x) MCUMAX_EMPTY) [2, 3, 4, 5] s;
          s = bd_set (0x10 * 6 + x) (MCUMAX_BOARD_WHITE OR MCUMAX_PAWN_UPSTREAM) s;
          s = bd_set (0x10 * 7 + x) (MCUMAX_BOARD_WHITE OR mcumax_board_setup ! nat x) s
      in fold (\<lambda>y. bd_set (16 * y + x + 8) ((x - 4) * (x - 4) + (y - 4) * (y - 3)))
           [0, 1, 2, 3, 4, 5, 6, 7] s)"

definition mcumax_init :: "mcumax_struct \<Rightarrow> mcumax_struct" where
  "mcumax_init s =
     (fold init_file [0, 1, 2, 3, 4, 5, 6, 7] s)
       \<lparr>mcumax_current_side := MCUMAX_BOARD_WHITE,
        mcumax_score := 0,
        mcumax_en_passant_square := MCUMAX_SQUARE_INVALID,
        mcumax_non_pawn_material := 0\<rparr>"

text \<open>\<^verbatim>\<open>mcumax_start_search\<close> (mcu-max.c, 831-851).\<close>

definition mcumax_start_search :: "nat \<Rightarrow> mcumax_mode \<Rightarrow> mcumax_move \<Rightarrow> int \<Rightarrow> int \<Rightarrow>
    mcumax_struct \<Rightarrow> (int \<times> mcumax_struct) option" where
  "mcumax_start_search n md move dmax nmax s =
     (let s = s\<lparr>mcumax_square_from := fst move, mcumax_square_to := snd move,
                mcumax_node_count := 0, mcumax_node_max := nmax, mcumax_depth_max := dmax,
                mcumax_stop_search := False\<rparr>
      in mcumax_search n
           \<lparr>alpha = - MCUMAX_SCORE_MAX, beta = MCUMAX_SCORE_MAX, score = mcumax_score s,
            en_passant_square = mcumax_en_passant_square s, depth = 3, mode = md\<rparr> s)"

text \<open>\<^verbatim>\<open>mcumax_search_valid_moves\<close> (mcu-max.c, 853-862): the count, and the state left.\<close>

definition mcumax_search_valid_moves :: "nat \<Rightarrow> mcumax_move list option \<Rightarrow> int \<Rightarrow>
    mcumax_struct \<Rightarrow> (int \<times> mcumax_struct) option" where
  "mcumax_search_valid_moves n valid_moves_buffer valid_moves_buffer_size s =
     (let s = s\<lparr>mcumax_valid_moves_num := 0,
                mcumax_valid_moves_buffer := valid_moves_buffer,
                mcumax_valid_moves_buffer_size := valid_moves_buffer_size\<rparr>
      in case mcumax_start_search n MCUMAX_SEARCH_VALID_MOVES MCUMAX_MOVE_INVALID 0 0 s of
           None \<Rightarrow> None
         | Some (v, s) \<Rightarrow> Some (mcumax_valid_moves_num s, s))"

text \<open>\<^verbatim>\<open>mcumax_search_best_move\<close> (mcu-max.c, 864-873).\<close>

definition mcumax_search_best_move :: "nat \<Rightarrow> int \<Rightarrow> int \<Rightarrow> mcumax_struct \<Rightarrow>
    (mcumax_move \<times> mcumax_struct) option" where
  "mcumax_search_best_move n nmax dmax s =
     (case mcumax_start_search n MCUMAX_SEARCH_BEST_MOVE MCUMAX_MOVE_INVALID
             ((dmax + 3) mod 2 ^ 32) nmax s of
        None \<Rightarrow> None
      | Some (v, s) \<Rightarrow>
          if v = MCUMAX_SCORE_MAX then Some ((mcumax_square_from s, mcumax_square_to s), s)
          else Some (MCUMAX_MOVE_INVALID, s))"

text \<open>\<^verbatim>\<open>mcumax_play_move\<close> (mcu-max.c, 875-878).\<close>

definition mcumax_play_move :: "nat \<Rightarrow> mcumax_move \<Rightarrow> mcumax_struct \<Rightarrow>
    (bool \<times> mcumax_struct) option" where
  "mcumax_play_move n move s =
     (case mcumax_start_search n MCUMAX_PLAY_MOVE move 0 0 s of
        None \<Rightarrow> None
      | Some (v, s) \<Rightarrow> Some (v = MCUMAX_SCORE_MAX, s))"

section \<open>Position from a FEN string\<close>

text \<open>\<^verbatim>\<open>mcumax_set_piece\<close> (mcu-max.c, 622-630): the next square, and the state.\<close>

definition mcumax_set_piece :: "int \<Rightarrow> int \<Rightarrow> mcumax_struct \<Rightarrow> int \<times> mcumax_struct" where
  "mcumax_set_piece square piece s =
     (if square AND MCUMAX_BOARD_MASK \<noteq> 0 then (square, s)
      else ((square + 1) mod 256,
            bd_set square (if piece \<noteq> 0 then piece OR MCUMAX_PIECE_MOVED else piece) s))"

text \<open>The piece a letter of the placement field stands for (mcu-max.c, 678-736).\<close>

definition fen_piece :: "char \<Rightarrow> int option" where
  "fen_piece c =
     (if c = CHR ''P'' then Some (MCUMAX_PAWN_UPSTREAM OR MCUMAX_BOARD_WHITE)
      else if c = CHR ''N'' then Some (MCUMAX_KNIGHT OR MCUMAX_BOARD_WHITE)
      else if c = CHR ''B'' then Some (MCUMAX_BISHOP OR MCUMAX_BOARD_WHITE)
      else if c = CHR ''R'' then Some (MCUMAX_ROOK OR MCUMAX_BOARD_WHITE)
      else if c = CHR ''Q'' then Some (MCUMAX_QUEEN OR MCUMAX_BOARD_WHITE)
      else if c = CHR ''K'' then Some (MCUMAX_KING OR MCUMAX_BOARD_WHITE)
      else if c = CHR ''p'' then Some (MCUMAX_PAWN_DOWNSTREAM OR MCUMAX_BOARD_BLACK)
      else if c = CHR ''n'' then Some (MCUMAX_KNIGHT OR MCUMAX_BOARD_BLACK)
      else if c = CHR ''b'' then Some (MCUMAX_BISHOP OR MCUMAX_BOARD_BLACK)
      else if c = CHR ''r'' then Some (MCUMAX_ROOK OR MCUMAX_BOARD_BLACK)
      else if c = CHR ''q'' then Some (MCUMAX_QUEEN OR MCUMAX_BOARD_BLACK)
      else if c = CHR ''k'' then Some (MCUMAX_KING OR MCUMAX_BOARD_BLACK)
      else None)"

text \<open>The loop \<^verbatim>\<open>for (i = 0; i < (c - '0'); i++)\<close> over the empty squares of a digit.\<close>

primrec fen_empty :: "nat \<Rightarrow> int \<Rightarrow> mcumax_struct \<Rightarrow> int \<times> mcumax_struct" where
  "fen_empty 0 board_index s = (board_index, s)"
| "fen_empty (Suc k) board_index s =
     (case mcumax_set_piece (board_index mod 256) MCUMAX_EMPTY s of
        (board_index, s) \<Rightarrow> fen_empty k board_index s)"

text \<open>Field 0, the piece placement (mcu-max.c, 660-744).\<close>

definition fen_placement :: "char \<Rightarrow> int \<Rightarrow> mcumax_struct \<Rightarrow> int \<times> mcumax_struct" where
  "fen_placement c board_index s =
     (if board_index < 0x80 then
        (if c \<in> set ''87654321'' then fen_empty (nat (of_char c - of_char CHR ''0'')) board_index s
         else case fen_piece c of
                Some piece \<Rightarrow> mcumax_set_piece (board_index mod 256) piece s
              | None \<Rightarrow>
                  if c = CHR ''/''
                  then ((if board_index < 0x80 then (board_index AND 0xf0) + 0x10 else board_index), s)
                  else (board_index, s))
      else (board_index, s))"

text \<open>\<^verbatim>\<open>mcumax.board[i] &= ~MCUMAX_PIECE_MOVED\<close>.\<close>

definition clear_moved :: "int \<Rightarrow> mcumax_struct \<Rightarrow> mcumax_struct" where
  "clear_moved i s = bd_set i (bd s i AND NOT MCUMAX_PIECE_MOVED) s"

text \<open>Field 2, the castling rights (mcu-max.c, 761-789).\<close>

definition fen_castling :: "char \<Rightarrow> mcumax_struct \<Rightarrow> mcumax_struct" where
  "fen_castling c s =
     (if c = CHR ''K'' then clear_moved 0x77 (clear_moved 0x74 s)
      else if c = CHR ''Q'' then clear_moved 0x70 (clear_moved 0x74 s)
      else if c = CHR ''k'' then clear_moved 0x07 (clear_moved 0x04 s)
      else if c = CHR ''q'' then clear_moved 0x00 (clear_moved 0x04 s)
      else s)"

text \<open>Field 3, the en-passant square (mcu-max.c, 791-821).\<close>

definition fen_en_passant :: "char \<Rightarrow> mcumax_struct \<Rightarrow> mcumax_struct" where
  "fen_en_passant c s =
     (if c \<in> set ''abcdefgh''
      then s\<lparr>mcumax_en_passant_square :=
               ((mcumax_en_passant_square s AND 0x7f) OR (of_char c - of_char CHR ''a'')) mod 256\<rparr>
      else if c \<in> set ''12345678''
      then s\<lparr>mcumax_en_passant_square :=
               ((mcumax_en_passant_square s AND 0x7f) OR 16 * (of_char CHR ''8'' - of_char c)) mod 256\<rparr>
      else s)"

text \<open>
  One character of the string (mcu-max.c, 650-822); the state of the parser is
  \<open>field_index\<close>, \<open>board_index\<close> and the engine.
\<close>

definition fen_char :: "char \<Rightarrow> int \<times> int \<times> mcumax_struct \<Rightarrow> int \<times> int \<times> mcumax_struct" where
  "fen_char c st =
     (case st of (field_index, board_index, s) \<Rightarrow>
        if c = CHR '' '' then ((if field_index < 4 then field_index + 1 else field_index), board_index, s)
        else if field_index = 0 then
          (case fen_placement c board_index s of (board_index, s) \<Rightarrow> (field_index, board_index, s))
        else if field_index = 1 then
          (field_index, board_index,
           if c = CHR ''w'' then s\<lparr>mcumax_current_side := MCUMAX_BOARD_WHITE\<rparr>
           else if c = CHR ''b'' then s\<lparr>mcumax_current_side := MCUMAX_BOARD_BLACK\<rparr>
           else s)
        else if field_index = 2 then (field_index, board_index, fen_castling c s)
        else if field_index = 3 then (field_index, board_index, fen_en_passant c s)
        else st)"

text \<open>The loop \<^verbatim>\<open>while ((c = *fen_string++))\<close>: it ends at the terminating zero.\<close>

primrec fen_loop :: "string \<Rightarrow> int \<times> int \<times> mcumax_struct \<Rightarrow> int \<times> int \<times> mcumax_struct" where
  "fen_loop [] st = st"
| "fen_loop (c # cs) st = (if c = CHR 0x00 then st else fen_loop cs (fen_char c st))"

text \<open>\<^verbatim>\<open>mcumax_set_fen_position\<close> (mcu-max.c, 640-824).\<close>

definition mcumax_set_fen_position :: "string \<Rightarrow> mcumax_struct \<Rightarrow> mcumax_struct" where
  "mcumax_set_fen_position fen_string s = snd (snd (fen_loop fen_string (0, 0, mcumax_init s)))"

section \<open>Notions used in the statements\<close>

text \<open>The 64 squares of the board, \<open>0xRF\<close> with rank \<open>R\<close> and file \<open>F\<close> in \<open>0..7\<close>.\<close>

definition on_board_squares :: "int list" where
  "on_board_squares =
     concat (map (\<lambda>y. map (\<lambda>x. y * 16 + x) [0, 1, 2, 3, 4, 5, 6, 7]) [0, 1, 2, 3, 4, 5, 6, 7])"

text \<open>
  The side has a king on the board, in the sense of the king scan of \<^verbatim>\<open>is_in_check\<close>:
  a cell with the colour bit of the side and piece type \<open>MCUMAX_KING\<close>.
\<close>

definition has_king :: "mcumax_struct \<Rightarrow> int \<Rightarrow> bool" where
  "has_king s side =
     list_ex (\<lambda>sq. bd s sq AND (if side = MCUMAX_BOARD_WHITE then MCUMAX_BOARD_WHITE
                                  else MCUMAX_BOARD_BLACK) \<noteq> 0 \<and>
                   bd s sq AND 0b111 = MCUMAX_KING) on_board_squares"

text \<open>
  A value of a square variable that is \<open>MCUMAX_SQUARE_INVALID\<close> or a square of the
  board: below \<open>0x80\<close> with no bit of the mask \<open>0x88\<close>.
\<close>

definition sq_ok :: "int \<Rightarrow> bool" where
  "sq_ok x \<longleftrightarrow> x = MCUMAX_SQUARE_INVALID \<or> (0 \<le> x \<and> x < 0x80 \<and> x AND MCUMAX_BOARD_MASK = 0)"

subsection \<open>What a search leaves as it was\<close>

text \<open>
  Every field of the engine but the contents of \<open>board\<close> and \<open>node_count\<close> is the
  same in both states.
\<close>

definition unchanged :: "mcumax_struct \<Rightarrow> mcumax_struct \<Rightarrow> bool" where
  "unchanged s s' \<longleftrightarrow>
     length (mcumax_board s') = length (mcumax_board s) \<and>
     mcumax_current_side s' = mcumax_current_side s \<and>
     mcumax_score s' = mcumax_score s \<and>
     mcumax_en_passant_square s' = mcumax_en_passant_square s \<and>
     mcumax_non_pawn_material s' = mcumax_non_pawn_material s \<and>
     mcumax_square_from s' = mcumax_square_from s \<and>
     mcumax_square_to s' = mcumax_square_to s \<and>
     mcumax_node_max s' = mcumax_node_max s \<and>
     mcumax_depth_max s' = mcumax_depth_max s \<and>
     mcumax_stop_search s' = mcumax_stop_search s \<and>
     mcumax_valid_moves_buffer s' = mcumax_valid_moves_buffer s \<and>
     mcumax_valid_moves_buffer_size s' = mcumax_valid_moves_buffer_size s \<and>
     mcumax_valid_moves_num s' = mcumax_valid_moves_num s"

text \<open>What the proofs assume of the search one level down: an internal node keeps them.\<close>

definition internal_ok :: "search_fun \<Rightarrow> bool" where
  "internal_ok rec \<longleftrightarrow>
     (\<forall>p s r s'. rec p s = Some (r, s') \<longrightarrow> mode p = MCUMAX_INTERNAL_NODE \<longrightarrow> unchanged s s')"

text \<open>
  The local variables without the five that are assigned afresh for every move
  before they are read.
\<close>

definition scan_part :: "locals \<Rightarrow> locals" where
  "scan_part l = l\<lparr>step_score := 0, step_alpha := 0, capture_piece_value := 0,
                   step_depth := 0, step_score_new := 0\<rparr>"

text \<open>
  The frame of a search in mode \<open>md\<close> that does not play a move: the position
  fields other than the cells of the board, the limits and the capacity are kept;
  an internal node keeps \<open>square_from\<close> and \<open>square_to\<close>; only the listing of
  valid moves touches the caller's buffer and the count, and it keeps the length
  of the buffer and every entry from index \<open>valid_moves_buffer_size\<close> on.
\<close>

definition frame :: "mcumax_mode \<Rightarrow> mcumax_struct \<Rightarrow> mcumax_struct \<Rightarrow> bool" where
  "frame md s s' \<longleftrightarrow>
     length (mcumax_board s') = length (mcumax_board s) \<and>
     mcumax_current_side s' = mcumax_current_side s \<and>
     mcumax_score s' = mcumax_score s \<and>
     mcumax_en_passant_square s' = mcumax_en_passant_square s \<and>
     mcumax_non_pawn_material s' = mcumax_non_pawn_material s \<and>
     mcumax_node_max s' = mcumax_node_max s \<and>
     mcumax_depth_max s' = mcumax_depth_max s \<and>
     mcumax_stop_search s' = mcumax_stop_search s \<and>
     mcumax_valid_moves_buffer_size s' = mcumax_valid_moves_buffer_size s \<and>
     (md = MCUMAX_INTERNAL_NODE \<longrightarrow>
        mcumax_square_from s' = mcumax_square_from s \<and> mcumax_square_to s' = mcumax_square_to s) \<and>
     (md \<noteq> MCUMAX_SEARCH_VALID_MOVES \<longrightarrow>
        mcumax_valid_moves_buffer s' = mcumax_valid_moves_buffer s \<and>
        mcumax_valid_moves_num s' = mcumax_valid_moves_num s) \<and>
     map_option length (mcumax_valid_moves_buffer s') = map_option length (mcumax_valid_moves_buffer s) \<and>
     (0 \<le> mcumax_valid_moves_num s \<longrightarrow>
        0 \<le> mcumax_valid_moves_num s' \<and>
        map_option (drop (nat (mcumax_valid_moves_buffer_size s))) (mcumax_valid_moves_buffer s') =
        map_option (drop (nat (mcumax_valid_moves_buffer_size s))) (mcumax_valid_moves_buffer s))"

text \<open>
  The other way a search returns: in mode \<open>MCUMAX_PLAY_MOVE\<close> the move stays on the
  board, the value is \<open>beta\<close>, the side has changed and \<open>en_passant_square\<close> is a
  valid value.
\<close>

definition committed :: "params \<Rightarrow> int \<Rightarrow> mcumax_struct \<Rightarrow> mcumax_struct \<Rightarrow> bool" where
  "committed p v s s' \<longleftrightarrow>
     mode p = MCUMAX_PLAY_MOVE \<and> v = beta p \<and>
     sq_ok (mcumax_en_passant_square s') \<and>
     mcumax_current_side s' = mcumax_current_side s XOR 0x18 \<and>
     length (mcumax_board s') = length (mcumax_board s) \<and>
     mcumax_node_max s' = mcumax_node_max s \<and>
     mcumax_depth_max s' = mcumax_depth_max s \<and>
     mcumax_stop_search s' = mcumax_stop_search s \<and>
     mcumax_valid_moves_buffer_size s' = mcumax_valid_moves_buffer_size s \<and>
     mcumax_valid_moves_buffer s' = mcumax_valid_moves_buffer s \<and>
     mcumax_valid_moves_num s' = mcumax_valid_moves_num s"

text \<open>The same for the three ways out of the loops of the move generator.\<close>

definition flow_ok :: "params \<Rightarrow> mcumax_struct \<Rightarrow> flow \<Rightarrow> bool" where
  "flow_ok p s out =
     (case out of
        Next l' s' \<Rightarrow> frame (mode p) s s'
      | Cutoff l' s' \<Rightarrow> frame (mode p) s s'
      | Return v s' \<Rightarrow> frame (mode p) s s' \<or> committed p v s s')"

subsection \<open>The caller's buffer\<close>

text \<open>The engine with another buffer, capacity and count.\<close>

definition rebuf :: "mcumax_move list option \<Rightarrow> int \<Rightarrow> (int \<Rightarrow> int) \<Rightarrow> mcumax_struct \<Rightarrow> mcumax_struct" where
  "rebuf b z f s =
     s\<lparr>mcumax_valid_moves_buffer := b, mcumax_valid_moves_buffer_size := z,
       mcumax_valid_moves_num := f (mcumax_valid_moves_num s)\<rparr>"

text \<open>
  The count is not negative and the buffer has at least \<open>valid_moves_buffer_size\<close>
  entries; a \<^verbatim>\<open>NULL\<close> buffer has none.
\<close>

definition bufok :: "mcumax_struct \<Rightarrow> bool" where
  "bufok s \<longleftrightarrow>
     0 \<le> mcumax_valid_moves_num s \<and>
     (case mcumax_valid_moves_buffer s of
        None \<Rightarrow> mcumax_valid_moves_buffer_size s \<le> 0
      | Some buffer \<Rightarrow> mcumax_valid_moves_buffer_size s \<le> int (length buffer))"

text \<open>
  When the buffer may be exchanged: always in a mode that does not list moves; in
  \<open>MCUMAX_SEARCH_VALID_MOVES\<close> a buffer that holds its capacity may be exchanged for
  \<^verbatim>\<open>NULL\<close> with capacity 0.
\<close>

definition rebuf_ok :: "mcumax_mode \<Rightarrow> mcumax_move list option \<Rightarrow> int \<Rightarrow> (int \<Rightarrow> int) \<Rightarrow>
    mcumax_struct \<Rightarrow> bool" where
  "rebuf_ok md b z f s \<longleftrightarrow>
     md \<noteq> MCUMAX_SEARCH_VALID_MOVES \<or> (b = None \<and> z = 0 \<and> (\<forall>x. f x = x) \<and> bufok s)"

text \<open>What the proofs assume of the search one level down: it commutes with the exchange.\<close>

definition rec_comm :: "search_fun \<Rightarrow> mcumax_move list option \<Rightarrow> int \<Rightarrow> (int \<Rightarrow> int) \<Rightarrow> bool" where
  "rec_comm rec b z f \<longleftrightarrow>
     (\<forall>p s. mode p = MCUMAX_INTERNAL_NODE \<longrightarrow>
        rec p (rebuf b z f s) = map_option (\<lambda>(r, s'). (r, rebuf b z f s')) (rec p s))"

text \<open>The exchange in the three ways out of the loops.\<close>

definition flow_rebuf :: "mcumax_move list option \<Rightarrow> int \<Rightarrow> (int \<Rightarrow> int) \<Rightarrow> flow \<Rightarrow> flow" where
  "flow_rebuf b z f out =
     (case out of
        Next l s \<Rightarrow> Next l (rebuf b z f s)
      | Cutoff l s \<Rightarrow> Cutoff l (rebuf b z f s)
      | Return v s \<Rightarrow> Return v (rebuf b z f s))"

text \<open>
  The precondition of \<^verbatim>\<open>mcumax_search_valid_moves\<close> in C: the buffer passed has at
  least \<open>cap\<close> entries, and a \<^verbatim>\<open>NULL\<close> buffer comes with capacity 0.
\<close>

definition buffer_holds :: "mcumax_move list option \<Rightarrow> int \<Rightarrow> bool" where
  "buffer_holds buffer cap =
     (case buffer of None \<Rightarrow> cap \<le> 0 | Some xs \<Rightarrow> cap \<le> int (length xs))"

section \<open>Verified properties\<close>

subsection \<open>The piece accessor\<close>

lemma low_nibble_split: "(x::int) AND 0xf = (x AND 0b111) OR (x AND 0x8)"
proof -
  have "(0xf::int) = 0b111 OR 0x8" by simp
  then show ?thesis by (metis bit.conj_disj_distrib)
qed

text \<open>
  Claim C8. For every square argument: if it has a bit of the mask \<open>0x88\<close> set,
  \<open>mcumax_get_piece\<close> returns \<open>MCUMAX_EMPTY\<close>; otherwise it returns the low nibble of
  the board cell XOR-ed with \<open>0x8\<close>, and that nibble is the piece kind (bits 0-2)
  together with the colour flag in bit 3.
\<close>

theorem get_piece_spec:
  "(square AND MCUMAX_BOARD_MASK \<noteq> 0 \<longrightarrow> mcumax_get_piece s square = MCUMAX_EMPTY) \<and>
   (square AND MCUMAX_BOARD_MASK = 0 \<longrightarrow>
      mcumax_get_piece s square = (bd s square AND 0xf) XOR MCUMAX_BLACK \<and>
      bd s square AND 0xf = (bd s square AND 0b111) OR (bd s square AND MCUMAX_BOARD_WHITE))"
  using low_nibble_split by (simp add: mcumax_get_piece_def)

text \<open>
  At the start position: an off-board square gives empty, the white king on \<open>0x74\<close>
  gives \<open>MCUMAX_KING\<close>, the black king on \<open>0x04\<close> gives \<open>MCUMAX_KING\<close> with \<open>MCUMAX_BLACK\<close>.
\<close>

theorem get_piece_spec_witness:
  "mcumax_get_piece (mcumax_init mcumax_zero) 0x08 = MCUMAX_EMPTY \<and>
   mcumax_get_piece (mcumax_init mcumax_zero) 0x74 = MCUMAX_KING \<and>
   mcumax_get_piece (mcumax_init mcumax_zero) 0x04 = MCUMAX_KING OR MCUMAX_BLACK"
proof -
  have b: "bd (mcumax_init mcumax_zero) 0x74 = 12" "bd (mcumax_init mcumax_zero) 0x04 = 20"
    by code_simp+
  have "(0x08::int) AND MCUMAX_BOARD_MASK \<noteq> 0" "(0x74::int) AND MCUMAX_BOARD_MASK = 0"
    "(0x04::int) AND MCUMAX_BOARD_MASK = 0" by simp_all
  with get_piece_spec [of "0x08" "mcumax_init mcumax_zero"]
    get_piece_spec [of "0x74" "mcumax_init mcumax_zero"]
    get_piece_spec [of "0x04" "mcumax_init mcumax_zero"] b
  show ?thesis by simp
qed

subsection \<open>The in-check probe without a king\<close>

lemma on_board_squares_mem:
  assumes "0 \<le> y" "y < 8" "0 \<le> x" "x < 8"
  shows "y * 16 + x \<in> set on_board_squares"
proof -
  have sx: "x \<in> set [0, 1, 2, 3, 4, 5, 6, 7::int]" using assms by (simp; presburger)
  have sy: "y \<in> set [0, 1, 2, 3, 4, 5, 6, 7::int]" using assms by (simp; presburger)
  show ?thesis unfolding on_board_squares_def using sx sy by auto
qed

lemma find_king_x_none:
  assumes "\<And>x. 0 \<le> x \<Longrightarrow> x < 8 \<Longrightarrow>
             \<not> (bd s ((y * 16 + x) mod 256) AND m \<noteq> 0 \<and>
                bd s ((y * 16 + x) mod 256) AND 0b111 = MCUMAX_KING)"
  shows "k \<le> 8 \<Longrightarrow> find_king_x s m y k ks = ks"
proof (induction k)
  case 0
  then show ?case by simp
next
  case (Suc k)
  have "0 \<le> 8 - int (Suc k)" "8 - int (Suc k) < 8" using Suc.prems by simp_all
  from assms[OF this] Suc show ?case by (auto simp add: Let_def)
qed

lemma find_king_y_none:
  assumes "\<And>x y. 0 \<le> y \<Longrightarrow> y < 8 \<Longrightarrow> 0 \<le> x \<Longrightarrow> x < 8 \<Longrightarrow>
             \<not> (bd s ((y * 16 + x) mod 256) AND m \<noteq> 0 \<and>
                bd s ((y * 16 + x) mod 256) AND 0b111 = MCUMAX_KING)"
  shows "k \<le> 8 \<Longrightarrow> find_king_y s m k MCUMAX_SQUARE_INVALID = MCUMAX_SQUARE_INVALID"
proof (induction k)
  case 0
  then show ?case by simp
next
  case (Suc k)
  have y: "0 \<le> 8 - int (Suc k)" "8 - int (Suc k) < 8" using Suc.prems by simp_all
  have "find_king_x s m (8 - int (Suc k)) 8 MCUMAX_SQUARE_INVALID = MCUMAX_SQUARE_INVALID"
    by (rule find_king_x_none) (use assms[OF y] in auto)
  with Suc show ?case by (simp add: Let_def)
qed

text \<open>
  Claim C10. When the given side has no king on any of the 64 squares of the board,
  \<open>is_in_check\<close> returns false: the king scan leaves \<open>king_square\<close> at
  \<open>MCUMAX_SQUARE_INVALID\<close> and the function returns before any ray is walked.
\<close>

theorem is_in_check_no_king:
  assumes "\<not> has_king s side"
  shows "is_in_check s side = Some False"
proof -
  let ?m = "if side = MCUMAX_BOARD_WHITE then MCUMAX_BOARD_WHITE else MCUMAX_BOARD_BLACK"
  have nk: "\<not> (bd s ((y * 16 + x) mod 256) AND ?m \<noteq> 0 \<and>
               bd s ((y * 16 + x) mod 256) AND 0b111 = MCUMAX_KING)"
    if "0 \<le> y" "y < 8" "0 \<le> x" "x < 8" for x y
  proof -
    have "y * 16 + x \<in> set on_board_squares" using that by (rule on_board_squares_mem)
    moreover have "(y * 16 + x) mod 256 = y * 16 + x" using that by simp
    ultimately show ?thesis using assms unfolding has_king_def list_ex_iff by auto
  qed
  have "find_king_y s ?m 8 MCUMAX_SQUARE_INVALID = MCUMAX_SQUARE_INVALID"
    by (rule find_king_y_none) (use nk in auto)
  then show ?thesis by (simp add: is_in_check_def Let_def)
qed

text \<open>A position with the black king and a white rook only: white has no king.\<close>

theorem is_in_check_no_king_witness:
  "\<not> has_king (mcumax_set_fen_position ''4k3/4R3/8/8/8/8/8/8 b - - 0 1'' mcumax_zero)
         MCUMAX_BOARD_WHITE \<and>
   is_in_check (mcumax_set_fen_position ''4k3/4R3/8/8/8/8/8/8 b - - 0 1'' mcumax_zero)
         MCUMAX_BOARD_WHITE = Some False"
proof -
  have h: "\<not> has_king (mcumax_set_fen_position ''4k3/4R3/8/8/8/8/8/8 b - - 0 1'' mcumax_zero)
                MCUMAX_BOARD_WHITE"
    by code_simp
  show ?thesis using h is_in_check_no_king [OF h] by simp
qed

subsection \<open>The frame of the search\<close>

lemma scan_part_fields:
  assumes "scan_part a = scan_part b"
  shows "iter_depth a = iter_depth b" "iter_score a = iter_score b"
    "iter_square_from a = iter_square_from b" "iter_square_to a = iter_square_to b"
    "square_start a = square_start b" "square_from a = square_from b"
    "square_to a = square_to b" "replay_move a = replay_move b"
    "null_move_score a = null_move_score b" "scan_piece a = scan_piece b"
    "scan_piece_type a = scan_piece_type b" "step_vector a = step_vector b"
    "step_vector_index a = step_vector_index b"
    "castling_skip_square a = castling_skip_square b"
    "castling_rook_square a = castling_rook_square b"
    "capture_square a = capture_square b" "capture_piece a = capture_piece b"
proof -
  have f: "f a = f b" if "\<And>l. f (scan_part l) = f l" for f :: "locals \<Rightarrow> int"
    using that[of a] that[of b] assms by simp
  show "iter_depth a = iter_depth b" by (rule f) (simp add: scan_part_def)
  show "iter_score a = iter_score b" by (rule f) (simp add: scan_part_def)
  show "iter_square_from a = iter_square_from b" by (rule f) (simp add: scan_part_def)
  show "iter_square_to a = iter_square_to b" by (rule f) (simp add: scan_part_def)
  show "square_start a = square_start b" by (rule f) (simp add: scan_part_def)
  show "square_from a = square_from b" by (rule f) (simp add: scan_part_def)
  show "square_to a = square_to b" by (rule f) (simp add: scan_part_def)
  show "replay_move a = replay_move b" by (rule f) (simp add: scan_part_def)
  show "null_move_score a = null_move_score b" by (rule f) (simp add: scan_part_def)
  show "scan_piece a = scan_piece b" by (rule f) (simp add: scan_part_def)
  show "scan_piece_type a = scan_piece_type b" by (rule f) (simp add: scan_part_def)
  show "step_vector a = step_vector b" by (rule f) (simp add: scan_part_def)
  show "step_vector_index a = step_vector_index b" by (rule f) (simp add: scan_part_def)
  show "castling_skip_square a = castling_skip_square b" by (rule f) (simp add: scan_part_def)
  show "castling_rook_square a = castling_rook_square b" by (rule f) (simp add: scan_part_def)
  show "capture_square a = capture_square b" by (rule f) (simp add: scan_part_def)
  show "capture_piece a = capture_piece b" by (rule f) (simp add: scan_part_def)
qed

lemma xor_twice: "(x XOR y) XOR y = (x::int)"
  by (simp add: xor.assoc)

lemma unchanged_refl: "unchanged s s"
  by (simp add: unchanged_def)

lemma unchanged_trans: "unchanged s t \<Longrightarrow> unchanged t u \<Longrightarrow> unchanged s u"
  by (simp add: unchanged_def)

lemma unchanged_bd_set: "unchanged s (bd_set i v s)"
  by (simp add: unchanged_def bd_set_def)

lemma unchanged_toggle:
  "unchanged (toggle_side s) t \<Longrightarrow> unchanged s (toggle_side t)"
  by (simp add: unchanged_def toggle_side_def xor_twice)

lemma futility_frame:
  assumes "internal_ok rec"
  shows "futility rec n p l s = Some (l', s') \<Longrightarrow>
         unchanged s s' \<and> scan_part l' = scan_part l"
proof (induction n arbitrary: l s)
  case 0
  then show ?case by simp
next
  case (Suc n)
  let ?call = "rec \<lparr>alpha = - beta p, beta = - step_alpha l, score = - step_score l,
                            en_passant_square = castling_skip_square l, depth = step_depth l,
                            mode = MCUMAX_INTERNAL_NODE\<rparr> (toggle_side s)"
  let ?r = "(if mode p = MCUMAX_SEARCH_VALID_MOVES \<or> step_depth l > 2 \<or> step_score l > step_alpha l
               then map_option (\<lambda>(v, s'). (- v, s')) ?call
               else Some (step_score l, toggle_side s))"
  from Suc.prems obtain v s1 where r: "?r = Some (v, s1)"
    by (auto simp: Let_def split: option.splits)
  have u1: "unchanged (toggle_side s) s1"
  proof (cases "mode p = MCUMAX_SEARCH_VALID_MOVES \<or> step_depth l > 2 \<or> step_score l > step_alpha l")
    case True
    with r obtain v0 where "?call = Some (v0, s1)" by (auto split: option.splits)
    with assms show ?thesis unfolding internal_ok_def by force
  next
    case False
    with r show ?thesis by (simp add: unchanged_refl)
  qed
  then have u2: "unchanged s (toggle_side s1)" by (rule unchanged_toggle)
  have eq: "futility rec (Suc n) p l s =
      (if v > alpha p then
         (if (step_depth l + 1) mod 256 < iter_depth l
          then futility rec n p (l\<lparr>step_score_new := v, step_depth := (step_depth l + 1) mod 256\<rparr>) (toggle_side s1)
          else Some (l\<lparr>step_score_new := v, step_depth := (step_depth l + 1) mod 256\<rparr>, toggle_side s1))
       else Some (l\<lparr>step_score_new := v\<rparr>, toggle_side s1))"
    using r by (simp add: Let_def)
  show ?case
  proof (cases "v > alpha p")
    case False
    with eq Suc.prems have "l' = l\<lparr>step_score_new := v\<rparr>" "s' = toggle_side s1"
      by simp_all
    with u2 show ?thesis by (simp add: scan_part_def)
  next
    case True
    note gt = this
    show ?thesis
    proof (cases "(step_depth l + 1) mod 256 < iter_depth l")
      case False
      with gt eq Suc.prems have "l' = l\<lparr>step_score_new := v, step_depth := (step_depth l + 1) mod 256\<rparr>" "s' = toggle_side s1"
        by simp_all
      with u2 show ?thesis by (simp add: scan_part_def)
    next
      case True
      with gt eq Suc.prems
      have "futility rec n p (l\<lparr>step_score_new := v, step_depth := (step_depth l + 1) mod 256\<rparr>) (toggle_side s1) = Some (l', s')"
        by simp
      from Suc.IH[OF this] have a: "unchanged (toggle_side s1) s'" and
        b: "scan_part l' = scan_part (l\<lparr>step_score_new := v, step_depth := (step_depth l + 1) mod 256\<rparr>)"
        by blast+
      from b have "scan_part l' = scan_part l" by (simp add: scan_part_def)
      with unchanged_trans[OF u2 a] show ?thesis by blast
    qed
  qed
qed

lemma unchanged_frame: "unchanged s s' \<Longrightarrow> frame md s s'"
  by (simp add: unchanged_def frame_def)

lemma frame_internal_unchanged: "frame MCUMAX_INTERNAL_NODE s s' \<Longrightarrow> unchanged s s'"
  by (simp add: unchanged_def frame_def)

lemma frame_refl: "frame md s s"
  by (simp add: frame_def)

lemma frame_trans: "frame md s t \<Longrightarrow> frame md t u \<Longrightarrow> frame md s u"
  by (simp add: frame_def)

lemma frame_committed: "frame (mode p) s t \<Longrightarrow> committed p v t u \<Longrightarrow> committed p v s u"
  by (simp add: frame_def committed_def)

lemma castle_rook_unchanged: "unchanged s (snd (castle_rook l s))"
  by (simp add: castle_rook_def unchanged_def bd_set_def)

lemma move_make_unchanged: "unchanged s (move_make l s)"
  by (simp add: move_make_def unchanged_def bd_set_def)

lemma move_pawn_unchanged: "unchanged s (snd (move_pawn l s))"
  by (simp add: move_pawn_def unchanged_def bd_set_def)

lemma move_apply_unchanged: "unchanged s (snd (move_apply p l s))"
  unfolding move_apply_def split_def snd_conv
  by (rule unchanged_trans[OF move_make_unchanged unchanged_trans[OF castle_rook_unchanged move_pawn_unchanged]])

lemma move_apply_locals: "scan_part (fst (move_apply p l s)) = scan_part l"
proof -
  obtain l1 s1 where c: "castle_rook (l\<lparr>step_score := center_score l s\<rparr>) (move_make l s) = (l1, s1)"
    by (cases "castle_rook (l\<lparr>step_score := center_score l s\<rparr>) (move_make l s)")
  then have l1: "scan_part l1 = scan_part l"
    by (auto simp: castle_rook_def scan_part_def split: if_splits)
  obtain l2 s2 where m: "move_pawn (king_freeze l1 s1) s1 = (l2, s2)"
    by (cases "move_pawn (king_freeze l1 s1) s1")
  then have "scan_part l2 = scan_part l1"
    by (auto simp: move_pawn_def king_freeze_def scan_part_def split: if_splits)
  with l1 have l2: "scan_part l2 = scan_part l" by simp
  have "fst (move_apply p l s) = reply_depth p l2 s2"
    using c m by (simp add: move_apply_def)
  moreover have "scan_part (reply_depth p l2 s2) = scan_part l2"
    by (simp add: reply_depth_def scan_part_def)
  ultimately show ?thesis using l2 by simp
qed

lemma move_undo_unchanged: "unchanged s (move_undo l s)"
  by (simp add: move_undo_def Let_def unchanged_def bd_set_def)

lemma valid_move_store_frame:
  "valid_move_store m s = Some s' \<Longrightarrow> frame MCUMAX_SEARCH_VALID_MOVES s s'"
  by (auto simp add: valid_move_store_def frame_def split: if_splits option.splits)

lemma move_commit_committed:
  assumes "mode p = MCUMAX_PLAY_MOVE" "sq_ok (castling_skip_square l)" "unchanged s t"
  shows "committed p (beta p) s (move_commit p l t)"
  using assms by (simp add: committed_def move_commit_def toggle_side_def unchanged_def)

lemma step_move_frame:
  assumes rec: "internal_ok rec" and sk: "sq_ok (castling_skip_square l)"
    and r: "step_move rec n p l s = Some (ret, l', s')"
  shows "scan_part l' = scan_part l \<and>
         (case ret of None \<Rightarrow> frame (mode p) s s'
          | Some v \<Rightarrow> frame (mode p) s s' \<or> committed p v s s')"
proof -
  obtain la sa where ma: "move_apply p l s = (la, sa)" by (cases "move_apply p l s")
  from move_apply_locals[of p l s] ma have la: "scan_part la = scan_part l" by simp
  have usa: "unchanged s sa" using move_apply_unchanged[of s p l] ma by simp
  from r ma obtain lb sb where fu: "futility rec n p la sa = Some (lb, sb)"
    by (auto simp: step_move_def split: option.splits)
  from futility_frame[OF rec fu] have
    usb: "unchanged sa sb" and lb: "scan_part lb = scan_part la" by blast+
  have us: "unchanged s sb" using unchanged_trans[OF usa usb] .
  define lc where "lc = lb\<lparr>step_score := step_score_new lb\<rparr>"
  have "scan_part lc = scan_part lb" by (simp add: lc_def scan_part_def)
  with lb la have lcx: "scan_part lc = scan_part l" by simp
  have skc: "castling_skip_square lc = castling_skip_square l"
    using scan_part_fields(14)[OF lcx] .
  define su where "su = move_undo lc sb"
  have usu: "unchanged s su" unfolding su_def using unchanged_trans[OF us move_undo_unchanged] .
  have eq: "step_move rec n p l s =
      (if mode p = MCUMAX_PLAY_MOVE \<and> step_score lc \<noteq> - MCUMAX_SCORE_MAX \<and>
          square_from lc = mcumax_square_from sb \<and> square_to lc = mcumax_square_to sb
       then Some (Some (beta p), lc, move_commit p lc sb)
       else if mode p = MCUMAX_SEARCH_BEST_MOVE \<and> step_score lc \<noteq> - MCUMAX_SCORE_MAX \<and>
               square_from lc = mcumax_square_from su \<and> square_to lc = mcumax_square_to su
       then Some (Some (beta p), lc, su)
       else if mode p = MCUMAX_SEARCH_VALID_MOVES \<and> step_score lc \<noteq> - MCUMAX_SCORE_MAX \<and>
               mcumax_square_from su = MCUMAX_SQUARE_INVALID \<and>
               iter_depth lc = 3 \<and> replay_move lc = 0
       then map_option (\<lambda>s. (None, lc, s)) (valid_move_store (square_from lc, square_to lc) su)
       else Some (None, lc, su))"
    using ma fu by (simp add: step_move_def lc_def su_def Let_def)
  show ?thesis
  proof (cases "mode p = MCUMAX_PLAY_MOVE \<and> step_score lc \<noteq> - MCUMAX_SCORE_MAX \<and>
          square_from lc = mcumax_square_from sb \<and> square_to lc = mcumax_square_to sb")
    case True
    with eq r have "ret = Some (beta p)" "l' = lc" "s' = move_commit p lc sb" by simp_all
    moreover have "committed p (beta p) s (move_commit p lc sb)"
      using True sk skc us by (intro move_commit_committed) simp_all
    ultimately show ?thesis using lcx by simp
  next
    case nplay: False
    show ?thesis
    proof (cases "mode p = MCUMAX_SEARCH_BEST_MOVE \<and> step_score lc \<noteq> - MCUMAX_SCORE_MAX \<and>
               square_from lc = mcumax_square_from su \<and> square_to lc = mcumax_square_to su")
      case True
      with eq r nplay have "ret = Some (beta p)" "l' = lc" "s' = su" by simp_all
      then show ?thesis using lcx unchanged_frame[OF usu] by simp
    next
      case nbest: False
      show ?thesis
      proof (cases "mode p = MCUMAX_SEARCH_VALID_MOVES \<and> step_score lc \<noteq> - MCUMAX_SCORE_MAX \<and>
               mcumax_square_from su = MCUMAX_SQUARE_INVALID \<and>
               iter_depth lc = 3 \<and> replay_move lc = 0")
        case True
        with eq r nplay nbest
        have "map_option (\<lambda>s. (None, lc, s)) (valid_move_store (square_from lc, square_to lc) su) =
              Some (ret, l', s')" by simp
        then have "\<exists>sv. valid_move_store (square_from lc, square_to lc) su = Some sv \<and>
                    ret = None \<and> l' = lc \<and> s' = sv"
          by (cases "valid_move_store (square_from lc, square_to lc) su") simp_all
        then obtain sv where
          vs: "valid_move_store (square_from lc, square_to lc) su = Some sv"
          and res: "ret = None" "l' = lc" "s' = sv" by blast
        have "frame (mode p) su sv" using valid_move_store_frame[OF vs] True by simp
        with unchanged_frame[OF usu] have "frame (mode p) s sv" by (rule frame_trans)
        then show ?thesis using res lcx by simp
      next
        case False
        with eq r nplay nbest have "ret = None" "l' = lc" "s' = su" by simp_all
        then show ?thesis using lcx unchanged_frame[OF usu] by simp
      qed
    qed
  qed
qed

lemma byte_on_board_all: "list_all (\<lambda>x::int. x AND 0x88 = 0 \<longrightarrow> x < 0x80) [0..255]"
  by code_simp

lemma byte_on_board:
  assumes "0 \<le> (x::int)" "x < 256" "x AND 0x88 = 0"
  shows "x < 0x80"
proof -
  have "x \<in> set [0..255]" using assms by simp
  with byte_on_board_all assms(3) show ?thesis unfolding list_all_iff by blast
qed

lemma step_begin_props:
  assumes "step_begin p l s = (b, l1)"
  shows "castling_skip_square l1 = castling_skip_square l"
    and "replay_move l1 = replay_move l"
    and "\<not> b \<Longrightarrow> replay_move l = 0 \<Longrightarrow>
           0 \<le> square_to l1 \<and> square_to l1 < 256 \<and> square_to l1 AND MCUMAX_BOARD_MASK = 0"
proof -
  define sq where "sq = (if replay_move l \<noteq> 0 then iter_square_to l XOR replay_move l
                else (square_to l + step_vector l) mod 256)"
  define la where "la = l\<lparr>square_to := sq, capture_square := sq\<rparr>"
  define lb where "lb = (if en_passant_square p \<noteq> MCUMAX_SQUARE_INVALID \<and>
                       bd s (en_passant_square p) \<noteq> 0 \<and>
                       square_to la - en_passant_square p < 2 \<and>
                       en_passant_square p - square_to la < 2
                    then la\<lparr>iter_score := MCUMAX_SCORE_MAX\<rparr> else la)"
  define lc where "lc = (if scan_piece_type lb < 3 \<and> square_to lb = en_passant_square p
                    then lb\<lparr>capture_square := capture_square lb XOR 16\<rparr> else lb)"
  define ld where "ld = lc\<lparr>capture_piece := bd s (capture_square lc)\<rparr>"
  have eq: "step_begin p l s =
      (if square_to la AND MCUMAX_BOARD_MASK \<noteq> 0 then (True, la)
       else if capture_piece ld AND mcumax_current_side s \<noteq> 0 \<or>
                 (scan_piece_type ld < 3 \<and>
                  c_int ((square_to ld - square_from ld) AND 0b111 = 0) - c_int (capture_piece ld = 0) \<noteq> 0)
              then (True, ld) else (False, ld))"
    unfolding step_begin_def sq_def la_def lb_def lc_def ld_def Let_def by (rule refl)
  have a: "castling_skip_square la = castling_skip_square l" "replay_move la = replay_move l"
    "square_to la = sq" by (simp_all add: la_def)
  have d: "castling_skip_square ld = castling_skip_square l" "replay_move ld = replay_move l"
    "square_to ld = sq" using a by (simp_all add: ld_def lc_def lb_def)
  have l1: "l1 = la \<or> l1 = ld" using assms eq by (auto split: if_splits)
  show "castling_skip_square l1 = castling_skip_square l" using l1 a d by auto
  show "replay_move l1 = replay_move l" using l1 a d by auto
  show "0 \<le> square_to l1 \<and> square_to l1 < 256 \<and> square_to l1 AND MCUMAX_BOARD_MASK = 0"
    if "\<not> b" "replay_move l = 0"
  proof -
    from that assms eq have "l1 = ld" "square_to la AND MCUMAX_BOARD_MASK = 0"
      by (auto split: if_splits)
    moreover have "sq = (square_to l + step_vector l) mod 256" using that by (simp add: sq_def)
    ultimately show ?thesis using a d by simp
  qed
qed

lemma step_value_part:
  "castling_skip_square (step_value l) = castling_skip_square l"
  "replay_move (step_value l) = replay_move l"
  "square_to (step_value l) = square_to l"
  by (simp_all add: step_value_def Let_def)

lemma fake_capture_part:
  "castling_skip_square (fake_capture l) = castling_skip_square l"
  by (simp add: fake_capture_def)

lemma step_end_props:
  assumes "step_end l s = (c, l')"
  shows "c = Continue \<or> c = GotoReplay"
    and "castling_skip_square l' = castling_skip_square l \<or>
         (replay_move l = 0 \<and> castling_skip_square l' = square_to l)"
proof -
  define la where "la = (if step_score l > iter_score l
               then l\<lparr>iter_score := step_score l,
                      iter_square_from := square_from l,
                      iter_square_to := square_to l OR (castling_skip_square l AND MCUMAX_SQUARE_INVALID)\<rparr>
               else l)"
  define lr where "lr = la\<lparr>castling_rook_square :=
                         ((square_from la + 3) XOR ((step_vector la div 2) AND 0b111)) mod 256\<rparr>"
  have a: "castling_skip_square la = castling_skip_square l" "replay_move la = replay_move l"
    "square_to la = square_to l" by (simp_all add: la_def)
  have r: "castling_skip_square lr = castling_skip_square l" "square_to lr = square_to l"
    using a by (simp_all add: lr_def)
  have eq: "step_end l s =
     (if replay_move la \<noteq> 0 then (GotoReplay, la\<lparr>replay_move := 0\<rparr>)
         else if square_from la + step_vector la - square_to la \<noteq> 0 \<or>
                 scan_piece la AND MCUMAX_PIECE_MOVED \<noteq> 0
         then (Continue, fake_capture la)
         else if scan_piece_type la > 2 then
           (if scan_piece_type la \<noteq> 4 \<or> step_vector_index la \<noteq> 7 then (Continue, fake_capture la)
            else
              if bd s (castling_rook_square lr) - mcumax_current_side s - 6 \<noteq> 0 \<or>
                    bd s (castling_rook_square lr XOR 1) \<noteq> 0 \<or>
                    bd s (castling_rook_square lr XOR 2) \<noteq> 0
                 then (Continue, fake_capture lr)
                 else (Continue, lr\<lparr>castling_skip_square := square_to lr\<rparr>))
         else (Continue, la\<lparr>castling_skip_square := square_to la\<rparr>))"
    unfolding step_end_def la_def lr_def Let_def by (rule refl)
  from assms eq show "c = Continue \<or> c = GotoReplay" by (auto split: if_splits)
  from assms eq a r show "castling_skip_square l' = castling_skip_square l \<or>
         (replay_move l = 0 \<and> castling_skip_square l' = square_to l)"
    by (auto simp: fake_capture_part split: if_splits)
qed

lemma step_frame:
  assumes rec: "internal_ok rec" and sk: "sq_ok (castling_skip_square l)"
    and r: "step rec n p l s = Some (c, l', s')"
  shows "sq_ok (castling_skip_square l') \<and>
         (case c of ReturnBeta v \<Rightarrow> frame (mode p) s s' \<or> committed p v s s'
          | _ \<Rightarrow> frame (mode p) s s')"
proof -
  obtain b l1 where sb: "step_begin p l s = (b, l1)" by (cases "step_begin p l s")
  note p1 = step_begin_props[OF sb]
  show ?thesis
  proof (cases b)
    case True
    with r sb have "c = Break" "l' = l1" "s' = s" by (simp_all add: step_def)
    with p1(1) sk show ?thesis by (simp add: frame_refl)
  next
    case False
    define l2 where "l2 = step_value l1"
    define l3 where "l3 = l2\<lparr>step_score := (if iter_depth l2 \<noteq> 1 then score p
                                          else capture_piece_value l2 - scan_piece_type l2)\<rparr>"
    have l3: "castling_skip_square l3 = castling_skip_square l" "replay_move l3 = replay_move l"
      "square_to l3 = square_to l1"
      using p1(1,2) by (simp_all add: l3_def l2_def step_value_part)
    have eq: "step rec n p l s =
       (if iter_score l2 \<ge> beta p \<and> iter_depth l2 > 1 then Some (GotoCutoff, l2, s)
        else (case (if iter_depth l3 - c_int (capture_piece l3 = 0) > 1
                         then step_move rec n p l3 s
                         else Some (None, l3, s)) of
                     None \<Rightarrow> None
                   | Some (Some v, l, s) \<Rightarrow> Some (ReturnBeta v, l, s)
                   | Some (None, l, s) \<Rightarrow>
                       (case step_end l s of (c, l) \<Rightarrow> Some (c, l, s))))"
      using sb False by (simp add: step_def l2_def l3_def Let_def)
    show ?thesis
    proof (cases "iter_score l2 \<ge> beta p \<and> iter_depth l2 > 1")
      case True
      with eq r have "c = GotoCutoff" "l' = l2" "s' = s" by simp_all
      with p1(1) sk show ?thesis by (simp add: frame_refl l2_def step_value_part)
    next
      case ncut: False
      let ?m = "(if iter_depth l3 - c_int (capture_piece l3 = 0) > 1
                         then step_move rec n p l3 s
                         else Some (None, l3, s))"
      from eq r ncut obtain ret l4 s4 where m: "?m = Some (ret, l4, s4)"
        by (cases ?m) auto
      have m4: "scan_part l4 = scan_part l3 \<and>
         (case ret of None \<Rightarrow> frame (mode p) s s4
          | Some v \<Rightarrow> frame (mode p) s s4 \<or> committed p v s s4)"
      proof (cases "iter_depth l3 - c_int (capture_piece l3 = 0) > 1")
        case True
        with m have "step_move rec n p l3 s = Some (ret, l4, s4)" by simp
        from step_move_frame[OF rec _ this] sk l3(1) show ?thesis by simp
      next
        case False
        with m show ?thesis by (simp add: frame_refl)
      qed
      then have sp: "scan_part l4 = scan_part l3" by blast
      have l4: "castling_skip_square l4 = castling_skip_square l" "replay_move l4 = replay_move l"
        "square_to l4 = square_to l1"
        using scan_part_fields(14)[OF sp] scan_part_fields(8)[OF sp] scan_part_fields(7)[OF sp] l3
        by simp_all
      show ?thesis
      proof (cases ret)
        case (Some v)
        with eq r ncut m have "c = ReturnBeta v" "l' = l4" "s' = s4" by simp_all
        with m4 Some l4(1) sk show ?thesis by simp
      next
        case None
        obtain c5 l5 where se: "step_end l4 s4 = (c5, l5)" by (cases "step_end l4 s4")
        with eq r ncut m None have res: "c = c5" "l' = l5" "s' = s4" by simp_all
        note p5 = step_end_props[OF se]
        have fr: "frame (mode p) s s4" using m4 None by simp
        have "sq_ok (castling_skip_square l5)"
        proof (cases "castling_skip_square l5 = castling_skip_square l4")
          case True
          with l4(1) sk show ?thesis by simp
        next
          case False
          with p5(2) have z: "replay_move l4 = 0" "castling_skip_square l5 = square_to l4" by auto
          with l4 have "replay_move l = 0" by simp
          from p1(3)[OF \<open>\<not> b\<close> this]
          have "0 \<le> square_to l1 \<and> square_to l1 < 256 \<and> square_to l1 AND MCUMAX_BOARD_MASK = 0" .
          with byte_on_board[of "square_to l1"] z l4 show ?thesis by (simp add: sq_ok_def)
        qed
        with res fr p5(1) show ?thesis by auto
      qed
    qed
  qed
qed

lemma flow_ok_trans: "frame (mode p) s t \<Longrightarrow> flow_ok p t out \<Longrightarrow> flow_ok p s out"
  by (cases out) (auto simp: flow_ok_def intro: frame_trans frame_committed)

lemma ray_frame:
  assumes rec: "internal_ok rec"
  shows "sq_ok (castling_skip_square l) \<Longrightarrow> ray rec n p l s = Some out \<Longrightarrow> flow_ok p s out"
proof (induction n arbitrary: l s)
  case 0
  then show ?case by simp
next
  case (Suc n)
  from Suc.prems(2) obtain c l1 s1 where st: "step rec n p l s = Some (c, l1, s1)"
    by (cases "step rec n p l s") auto
  from step_frame[OF rec Suc.prems(1) st]
  have sk1: "sq_ok (castling_skip_square l1)"
    and fr: "(case c of ReturnBeta v \<Rightarrow> frame (mode p) s s1 \<or> committed p v s s1
          | _ \<Rightarrow> frame (mode p) s s1)" by blast+
  show ?case
  proof (cases c)
    case Break
    with Suc.prems(2) st fr show ?thesis by (auto simp add: flow_ok_def)
  next
    case Continue
    show ?thesis
    proof (cases "capture_piece l1 = 0")
      case True
      with Suc.prems(2) st Continue have "ray rec n p l1 s1 = Some out" by simp
      from Suc.IH[OF sk1 this] fr Continue show ?thesis by (simp add: flow_ok_trans)
    next
      case False
      with Suc.prems(2) st fr Continue show ?thesis by (auto simp add: flow_ok_def)
    qed
  next
    case GotoReplay
    with Suc.prems(2) st have "ray rec n p (ray_start l1) s1 = Some out" by simp
    moreover have "sq_ok (castling_skip_square (ray_start l1))"
      by (simp add: ray_start_def sq_ok_def)
    ultimately have "flow_ok p s1 out" using Suc.IH by blast
    with fr GotoReplay show ?thesis by (simp add: flow_ok_trans)
  next
    case GotoCutoff
    with Suc.prems(2) st fr show ?thesis by (auto simp add: flow_ok_def)
  next
    case (ReturnBeta v)
    with Suc.prems(2) st fr show ?thesis by (auto simp add: flow_ok_def)
  qed
qed

lemma vectors_frame:
  assumes rec: "internal_ok rec"
  shows "vectors rec n p l s = Some out \<Longrightarrow> flow_ok p s out"
proof (induction n arbitrary: l s)
  case 0
  then show ?case by simp
next
  case (Suc n)
  define l1 where "l1 = next_vector l"
  show ?case
  proof (cases "step_vector l1 = 0")
    case True
    with Suc.prems show ?thesis by (auto simp add: l1_def Let_def flow_ok_def frame_refl)
  next
    case False
    with Suc.prems obtain o1 where ry: "ray rec n p (ray_start l1) s = Some o1"
      by (cases "ray rec n p (ray_start l1) s") (auto simp: l1_def Let_def)
    have "sq_ok (castling_skip_square (ray_start l1))" by (simp add: ray_start_def sq_ok_def)
    from ray_frame[OF rec this ry] have f1: "flow_ok p s o1" .
    show ?thesis
    proof (cases o1)
      case (Next l2 s2)
      with Suc.prems False ry have "vectors rec n p l2 s2 = Some out" by (simp add: l1_def Let_def)
      from Suc.IH[OF this] have "flow_ok p s2 out" .
      moreover have "frame (mode p) s s2" using f1 Next by (simp add: flow_ok_def)
      ultimately show ?thesis using flow_ok_trans by blast
    next
      case (Cutoff l2 s2)
      with Suc.prems False ry have "out = o1" by (simp add: l1_def Let_def)
      with f1 show ?thesis by simp
    next
      case (Return v s2)
      with Suc.prems False ry have "out = o1" by (simp add: l1_def Let_def)
      with f1 show ?thesis by simp
    qed
  qed
qed

lemma squares_frame:
  assumes rec: "internal_ok rec"
  shows "squares rec n p l s = Some out \<Longrightarrow> flow_ok p s out"
proof (induction n arbitrary: l s)
  case 0
  then show ?case by simp
next
  case (Suc n)
  define l1 where "l1 = l\<lparr>scan_piece := bd s (square_from l)\<rparr>"
  define lv where "lv = l1\<lparr>scan_piece_type := scan_piece l1 AND 0b111,
                         step_vector := scan_piece l1 AND 0b111,
                         step_vector_index :=
                           mcumax_step_vectors_indices ! nat (scan_piece l1 AND 0b111)\<rparr>"
  let ?v = "(if scan_piece l1 AND mcumax_current_side s \<noteq> 0
               then vectors rec n p lv s else Some (Next l1 s))"
  have eq: "squares rec (Suc n) p l s =
     (case ?v of
           None \<Rightarrow> None
         | Some (Next l s) \<Rightarrow>
             let l = l\<lparr>square_from := ((square_from l + 9) AND NOT MCUMAX_BOARD_MASK) mod 256\<rparr>
             in if square_from l \<noteq> square_start l then squares rec n p l s else Some (Next l s)
         | Some (Cutoff l s) \<Rightarrow> Some (Cutoff l s)
         | Some (Return v s) \<Rightarrow> Some (Return v s))"
    by (simp add: l1_def lv_def Let_def)
  from Suc.prems eq obtain o1 where v: "?v = Some o1" by (cases ?v) auto
  have f1: "flow_ok p s o1"
  proof (cases "scan_piece l1 AND mcumax_current_side s \<noteq> 0")
    case True
    with v have "vectors rec n p lv s = Some o1" by simp
    from vectors_frame[OF rec this] show ?thesis .
  next
    case False
    with v show ?thesis by (auto simp: flow_ok_def frame_refl)
  qed
  show ?case
  proof (cases o1)
    case (Next l2 s2)
    define l3 where "l3 = l2\<lparr>square_from := ((square_from l2 + 9) AND NOT MCUMAX_BOARD_MASK) mod 256\<rparr>"
    show ?thesis
    proof (cases "square_from l3 \<noteq> square_start l3")
      case True
      with Suc.prems eq v Next have "squares rec n p l3 s2 = Some out" by (simp add: l3_def Let_def)
      from Suc.IH[OF this] have "flow_ok p s2 out" .
      moreover have "frame (mode p) s s2" using f1 Next by (simp add: flow_ok_def)
      ultimately show ?thesis using flow_ok_trans by blast
    next
      case False
      with Suc.prems eq v Next have "out = Next l3 s2" by (simp add: l3_def Let_def)
      with f1 Next show ?thesis by (auto simp add: flow_ok_def)
    qed
  next
    case (Cutoff l2 s2)
    with Suc.prems eq v have "out = o1" by simp
    with f1 show ?thesis by simp
  next
    case (Return v2 s2)
    with Suc.prems eq v have "out = o1" by simp
    with f1 show ?thesis by simp
  qed
qed

lemma frame_toggle:
  "frame md (toggle_side s) t \<Longrightarrow> frame md s (toggle_side t)"
  by (simp add: frame_def toggle_side_def xor_twice)

lemma frame_count_node: "frame md s (count_node s)"
  by (simp add: frame_def count_node_def)

lemma null_move_frame:
  assumes rec: "internal_ok rec" and r: "null_move rec p l s = Some (v, s')"
  shows "unchanged s s'"
proof (cases "iter_depth l > 2 \<and> beta p \<noteq> - MCUMAX_SCORE_MAX")
  case True
  with r rec show ?thesis unfolding null_move_def internal_ok_def by force
next
  case False
  with r show ?thesis by (auto simp: null_move_def unchanged_refl)
qed

lemma scan_frame:
  assumes rec: "internal_ok rec" and r: "scan rec n p l s = Some (ret, l', s')"
  shows "case ret of None \<Rightarrow> frame (mode p) s s'
         | Some v \<Rightarrow> frame (mode p) s s' \<or> committed p v s s'"
proof -
  from r obtain o1 where sq: "squares rec n p l s = Some o1"
    by (cases "squares rec n p l s") (auto simp: scan_def)
  from squares_frame[OF rec sq] have f: "flow_ok p s o1" .
  show ?thesis
  proof (cases o1)
    case (Next l2 s2)
    with r sq have "ret = None" "s' = s2" by (simp_all add: scan_def)
    with f Next show ?thesis by (simp add: flow_ok_def)
  next
    case (Cutoff l2 s2)
    with r sq have "ret = None" "s' = s2" by (simp_all add: scan_def)
    with f Cutoff show ?thesis by (simp add: flow_ok_def)
  next
    case (Return v s2)
    with r sq have "ret = Some v" "s' = s2" by (simp_all add: scan_def)
    with f Return show ?thesis by (simp add: flow_ok_def)
  qed
qed

lemma iteration_frame:
  assumes rec: "internal_ok rec" and r: "iteration rec n p l s = Some (ret, l', s')"
  shows "case ret of None \<Rightarrow> frame (mode p) s s'
         | Some v \<Rightarrow> frame (mode p) s s' \<or> committed p v s s'"
proof -
  from r obtain v s1 where nm: "null_move rec p (scan_start p l) (toggle_side s) = Some (v, s1)"
    by (cases "null_move rec p (scan_start p l) (toggle_side s)") (auto simp: iteration_def)
  have "unchanged (toggle_side s) s1" using null_move_frame[OF rec nm] .
  then have "frame (mode p) (toggle_side s) s1" by (rule unchanged_frame)
  then have "frame (mode p) s (toggle_side s1)" by (rule frame_toggle)
  then have f1: "frame (mode p) s (count_node (toggle_side s1))"
    using frame_count_node frame_trans by blast
  define l1 where "l1 = (scan_start p l)\<lparr>null_move_score := v,
               iter_score := prune_score p ((scan_start p l)\<lparr>null_move_score := v\<rparr>) (toggle_side s1)\<rparr>"
  from r nm have "scan rec n p l1 (count_node (toggle_side s1)) = Some (ret, l', s')"
    by (simp add: iteration_def l1_def)
  from scan_frame[OF rec this] f1 show ?thesis
    by (cases ret) (auto intro: frame_trans frame_committed)
qed

lemma iter_cond_frame:
  assumes "iter_cond p l s = (go, l', s')"
  shows "frame (mode p) s s'"
proof -
  define l1 where "l1 = l\<lparr>iter_depth := (iter_depth l + 1) mod 256\<rparr>"
  have eq: "iter_cond p l s =
     (if iter_depth l < depth p then (True, l1, s)
         else if iter_depth l1 < 3 then (True, l1, s)
         else if mode p \<noteq> MCUMAX_INTERNAL_NODE \<and> mcumax_square_from s = MCUMAX_SQUARE_INVALID then
           (if mcumax_node_count s < mcumax_node_max s \<and> iter_depth l1 \<le> mcumax_depth_max s
            then (True, l1, s)
            else (True, l1\<lparr>iter_depth := 3\<rparr>,
                  s\<lparr>mcumax_square_from := iter_square_from l1,
                    mcumax_square_to := (iter_square_to l1 AND NOT MCUMAX_BOARD_MASK) mod 256\<rparr>))
         else (False, l1, s))"
    unfolding iter_cond_def l1_def Let_def by (rule refl)
  from assms eq have "s' = s \<or> (mode p \<noteq> MCUMAX_INTERNAL_NODE \<and>
       s' = s\<lparr>mcumax_square_from := iter_square_from l1,
                    mcumax_square_to := (iter_square_to l1 AND NOT MCUMAX_BOARD_MASK) mod 256\<rparr>)"
    by (auto split: if_splits)
  then show ?thesis by (auto simp: frame_def)
qed

lemma iterate_frame:
  assumes rec: "internal_ok rec"
  shows "iterate rec n p l s = Some (v, s') \<Longrightarrow> frame (mode p) s s' \<or> committed p v s s'"
proof (induction n arbitrary: l s)
  case 0
  then show ?case by simp
next
  case (Suc n)
  obtain go l1 s1 where ic: "iter_cond p l s = (go, l1, s1)" by (cases "iter_cond p l s")
  from iter_cond_frame[OF ic] have f1: "frame (mode p) s s1" .
  show ?case
  proof (cases "\<not> go \<or> mcumax_stop_search s1")
    case True
    with Suc.prems ic have "s' = s1" by auto
    with f1 show ?thesis by simp
  next
    case False
    with Suc.prems ic obtain ret l2 s2 where it: "iteration rec n p l1 s1 = Some (ret, l2, s2)"
      by (cases "iteration rec n p l1 s1") auto
    note f2 = iteration_frame[OF rec it]
    show ?thesis
    proof (cases ret)
      case None
      with Suc.prems ic False it have "iterate rec n p l2 s2 = Some (v, s')" by simp
      from Suc.IH[OF this] f2 None f1 show ?thesis
        by (auto intro: frame_trans frame_committed)
    next
      case (Some w)
      with Suc.prems ic False it have "v = w" "s' = s2" by simp_all
      with f2 Some f1 show ?thesis by (auto intro: frame_trans frame_committed)
    qed
  qed
qed

lemma search_frame:
  "mcumax_search n p s = Some (v, s') \<Longrightarrow>
     frame (mode p) s s' \<or> committed (adjust_window p) v s s'"
proof (induction n arbitrary: p s v s')
  case 0
  then show ?case by simp
next
  case (Suc n)
  have rec: "internal_ok (mcumax_search n)"
    unfolding internal_ok_def
  proof (intro allI impI)
    fix p s r s'
    assume a: "mcumax_search n p s = Some (r, s')" and m: "mode p = MCUMAX_INTERNAL_NODE"
    have "mode (adjust_window p) = mode p" by (simp add: adjust_window_def Let_def)
    with Suc.IH[OF a] m have "frame MCUMAX_INTERNAL_NODE s s'" by (auto simp: committed_def)
    then show "unchanged s s'" by (rule frame_internal_unchanged)
  qed
  have md: "mode (adjust_window p) = mode p" by (simp add: adjust_window_def Let_def)
  from Suc.prems have "iterate (mcumax_search n) n (adjust_window p) locals_init s = Some (v, s')"
    by simp
  from iterate_frame[OF rec this] md show ?case by simp
qed

subsection \<open>The search does not depend on the caller's buffer\<close>

lemma bufok_frame: "frame md s s' \<Longrightarrow> bufok s \<Longrightarrow> bufok s'"
  by (cases "mcumax_valid_moves_buffer s"; cases "mcumax_valid_moves_buffer s'")
     (auto simp: frame_def bufok_def)

lemma rebuf_ok_frame: "frame md s s' \<Longrightarrow> rebuf_ok md b z f s \<Longrightarrow> rebuf_ok md b z f s'"
  using bufok_frame by (auto simp: rebuf_ok_def)

lemma rebuf_fields [simp]:
  "mcumax_board (rebuf b z f s) = mcumax_board s"
  "mcumax_current_side (rebuf b z f s) = mcumax_current_side s"
  "mcumax_score (rebuf b z f s) = mcumax_score s"
  "mcumax_en_passant_square (rebuf b z f s) = mcumax_en_passant_square s"
  "mcumax_non_pawn_material (rebuf b z f s) = mcumax_non_pawn_material s"
  "mcumax_square_from (rebuf b z f s) = mcumax_square_from s"
  "mcumax_square_to (rebuf b z f s) = mcumax_square_to s"
  "mcumax_node_count (rebuf b z f s) = mcumax_node_count s"
  "mcumax_node_max (rebuf b z f s) = mcumax_node_max s"
  "mcumax_depth_max (rebuf b z f s) = mcumax_depth_max s"
  "mcumax_stop_search (rebuf b z f s) = mcumax_stop_search s"
  by (simp_all add: rebuf_def)

lemma bd_rebuf [simp]: "bd (rebuf b z f s) i = bd s i"
  by (simp add: bd_def)

lemma bd_set_rebuf [simp]: "bd_set i v (rebuf b z f s) = rebuf b z f (bd_set i v s)"
  by (simp add: bd_set_def rebuf_def)

lemma toggle_rebuf [simp]: "toggle_side (rebuf b z f s) = rebuf b z f (toggle_side s)"
  by (simp add: toggle_side_def rebuf_def)

lemma count_rebuf [simp]: "count_node (rebuf b z f s) = rebuf b z f (count_node s)"
  by (simp add: count_node_def rebuf_def)

lemma move_make_rebuf [simp]: "move_make l (rebuf b z f s) = rebuf b z f (move_make l s)"
  by (simp add: move_make_def)

lemma center_score_rebuf [simp]: "center_score l (rebuf b z f s) = center_score l s"
  by (simp add: center_score_def)

lemma castle_rook_rebuf:
  "castle_rook l (rebuf b z f s) = (fst (castle_rook l s), rebuf b z f (snd (castle_rook l s)))"
  by (simp add: castle_rook_def)

lemma king_freeze_rebuf [simp]: "king_freeze l (rebuf b z f s) = king_freeze l s"
  by (simp add: king_freeze_def)

lemma pawn_structure_rebuf [simp]: "pawn_structure l (rebuf b z f s) = pawn_structure l s"
  by (simp add: pawn_structure_def)

lemma move_pawn_rebuf:
  "move_pawn l (rebuf b z f s) = (fst (move_pawn l s), rebuf b z f (snd (move_pawn l s)))"
  by (simp add: move_pawn_def)

lemma reply_depth_rebuf [simp]: "reply_depth p l (rebuf b z f s) = reply_depth p l s"
  by (simp add: reply_depth_def)

lemma move_apply_rebuf:
  "move_apply p l (rebuf b z f s) = (fst (move_apply p l s), rebuf b z f (snd (move_apply p l s)))"
  by (simp add: move_apply_def castle_rook_rebuf move_pawn_rebuf split_def)

lemma move_undo_rebuf [simp]: "move_undo l (rebuf b z f s) = rebuf b z f (move_undo l s)"
  by (simp add: move_undo_def Let_def)

lemma move_commit_rebuf [simp]: "move_commit p l (rebuf b z f s) = rebuf b z f (move_commit p l s)"
  by (simp add: move_commit_def toggle_side_def rebuf_def)

lemma step_begin_rebuf [simp]: "step_begin p l (rebuf b z f s) = step_begin p l s"
  unfolding step_begin_def bd_rebuf rebuf_fields by (rule refl)

lemma step_end_rebuf [simp]: "step_end l (rebuf b z f s) = step_end l s"
  unfolding step_end_def bd_rebuf rebuf_fields by (rule refl)

lemma prune_score_rebuf [simp]: "prune_score p l (rebuf b z f s) = prune_score p l s"
  by (simp add: prune_score_def)

lemma valid_move_store_rebuf:
  assumes "bufok s" "\<forall>x. f x = x"
  shows "valid_move_store m (rebuf None 0 f s) =
         map_option (rebuf None 0 f) (valid_move_store m s)"
  using assms
  by (cases "mcumax_valid_moves_buffer s")
     (auto simp: valid_move_store_def bufok_def rebuf_def)

lemma futility_rebuf:
  assumes rc: "rec_comm rec b z f"
  shows "futility rec n p l (rebuf b z f s) =
         map_option (\<lambda>(l', s'). (l', rebuf b z f s')) (futility rec n p l s)"
proof (induction n arbitrary: l s)
  case 0
  show ?case by simp
next
  case (Suc n)
  let ?q = "\<lparr>alpha = - beta p, beta = - step_alpha l, score = - step_score l,
                            en_passant_square = castling_skip_square l, depth = step_depth l,
                            mode = MCUMAX_INTERNAL_NODE\<rparr>"
  have c: "rec ?q (rebuf b z f (toggle_side s)) =
           map_option (\<lambda>(r, s'). (r, rebuf b z f s')) (rec ?q (toggle_side s))"
    using rc by (simp add: rec_comm_def)
  show ?case
  proof (cases "mode p = MCUMAX_SEARCH_VALID_MOVES \<or> step_depth l > 2 \<or> step_score l > step_alpha l")
    case True
    show ?thesis
    proof (cases "rec ?q (toggle_side s)")
      case None
      with True c show ?thesis by simp
    next
      case (Some a)
      obtain v s1 where a: "a = (v, s1)" by (cases a)
      with Some True c Suc.IH show ?thesis by (simp add: Let_def)
    qed
  next
    case False
    with Suc.IH show ?thesis by (simp add: Let_def)
  qed
qed

lemma step_move_rebuf:
  assumes rc: "rec_comm rec b z f" and rec: "internal_ok rec"
    and ok: "rebuf_ok (mode p) b z f s"
  shows "step_move rec n p l (rebuf b z f s) =
         map_option (\<lambda>(r, l', s'). (r, l', rebuf b z f s')) (step_move rec n p l s)"
proof -
  obtain la sa where ma: "move_apply p l s = (la, sa)" by (cases "move_apply p l s")
  then have ma': "move_apply p l (rebuf b z f s) = (la, rebuf b z f sa)"
    by (simp add: move_apply_rebuf)
  have usa: "unchanged s sa" using move_apply_unchanged[of s p l] ma by simp
  note fr = futility_rebuf[OF rc, of n p la sa]
  show ?thesis
  proof (cases "futility rec n p la sa")
    case None
    with fr ma ma' show ?thesis by (simp add: step_move_def)
  next
    case (Some a)
    obtain lb sb where a: "a = (lb, sb)" by (cases a)
    with Some have fu: "futility rec n p la sa = Some (lb, sb)" by simp
    with fr have fu': "futility rec n p la (rebuf b z f sa) = Some (lb, rebuf b z f sb)" by simp
    from futility_frame[OF rec fu] have usb: "unchanged sa sb" by blast
    define lc where "lc = lb\<lparr>step_score := step_score_new lb\<rparr>"
    define su where "su = move_undo lc sb"
    have usu: "unchanged s su"
      unfolding su_def using unchanged_trans[OF unchanged_trans[OF usa usb] move_undo_unchanged] .
    have vs: "valid_move_store (square_from lc, square_to lc) (rebuf b z f su) =
           map_option (rebuf b z f) (valid_move_store (square_from lc, square_to lc) su)"
      if "mode p = MCUMAX_SEARCH_VALID_MOVES"
    proof -
      from that ok have o: "b = None" "z = 0" "\<forall>x. f x = x" "bufok s" by (auto simp: rebuf_ok_def)
      have bs: "bufok su" using bufok_frame[OF unchanged_frame[OF usu] o(4)] .
      have "valid_move_store (square_from lc, square_to lc) (rebuf None 0 f su) =
            map_option (rebuf None 0 f) (valid_move_store (square_from lc, square_to lc) su)"
        using bs o(3) by (rule valid_move_store_rebuf)
      with o show ?thesis by simp
    qed
    have eq: "step_move rec n p l s =
      (if mode p = MCUMAX_PLAY_MOVE \<and> step_score lc \<noteq> - MCUMAX_SCORE_MAX \<and>
          square_from lc = mcumax_square_from sb \<and> square_to lc = mcumax_square_to sb
       then Some (Some (beta p), lc, move_commit p lc sb)
       else if mode p = MCUMAX_SEARCH_BEST_MOVE \<and> step_score lc \<noteq> - MCUMAX_SCORE_MAX \<and>
               square_from lc = mcumax_square_from su \<and> square_to lc = mcumax_square_to su
       then Some (Some (beta p), lc, su)
       else if mode p = MCUMAX_SEARCH_VALID_MOVES \<and> step_score lc \<noteq> - MCUMAX_SCORE_MAX \<and>
               mcumax_square_from su = MCUMAX_SQUARE_INVALID \<and>
               iter_depth lc = 3 \<and> replay_move lc = 0
       then map_option (\<lambda>s. (None, lc, s)) (valid_move_store (square_from lc, square_to lc) su)
       else Some (None, lc, su))"
      using ma fu by (simp add: step_move_def lc_def su_def Let_def)
    have eq': "step_move rec n p l (rebuf b z f s) =
      (if mode p = MCUMAX_PLAY_MOVE \<and> step_score lc \<noteq> - MCUMAX_SCORE_MAX \<and>
          square_from lc = mcumax_square_from sb \<and> square_to lc = mcumax_square_to sb
       then Some (Some (beta p), lc, rebuf b z f (move_commit p lc sb))
       else if mode p = MCUMAX_SEARCH_BEST_MOVE \<and> step_score lc \<noteq> - MCUMAX_SCORE_MAX \<and>
               square_from lc = mcumax_square_from su \<and> square_to lc = mcumax_square_to su
       then Some (Some (beta p), lc, rebuf b z f su)
       else if mode p = MCUMAX_SEARCH_VALID_MOVES \<and> step_score lc \<noteq> - MCUMAX_SCORE_MAX \<and>
               mcumax_square_from su = MCUMAX_SQUARE_INVALID \<and>
               iter_depth lc = 3 \<and> replay_move lc = 0
       then map_option (\<lambda>s. (None, lc, s))
              (valid_move_store (square_from lc, square_to lc) (rebuf b z f su))
       else Some (None, lc, rebuf b z f su))"
      using ma' fu' by (simp add: step_move_def lc_def su_def Let_def)
    show ?thesis
    proof (cases "mode p = MCUMAX_SEARCH_VALID_MOVES")
      case True
      with eq eq' vs[OF True] show ?thesis
        by (cases "valid_move_store (square_from lc, square_to lc) su") simp_all
    next
      case False
      with eq eq' show ?thesis by simp
    qed
  qed
qed

lemma step_rebuf:
  assumes rc: "rec_comm rec b z f" and rec: "internal_ok rec"
    and ok: "rebuf_ok (mode p) b z f s"
  shows "step rec n p l (rebuf b z f s) =
         map_option (\<lambda>(c, l', s'). (c, l', rebuf b z f s')) (step rec n p l s)"
proof -
  obtain bb l1 where sb: "step_begin p l s = (bb, l1)" by (cases "step_begin p l s")
  define l2 where "l2 = step_value l1"
  define l3 where "l3 = l2\<lparr>step_score := (if iter_depth l2 \<noteq> 1 then score p
                                          else capture_piece_value l2 - scan_piece_type l2)\<rparr>"
  let ?m = "\<lambda>s. (if iter_depth l3 - c_int (capture_piece l3 = 0) > 1
                         then step_move rec n p l3 s
                         else Some (None, l3, s))"
  have eq: "\<And>s0. step_begin p l s0 = (bb, l1) \<Longrightarrow> step rec n p l s0 =
       (if bb then Some (Break, l1, s0)
        else if iter_score l2 \<ge> beta p \<and> iter_depth l2 > 1 then Some (GotoCutoff, l2, s0)
        else (case ?m s0 of
                     None \<Rightarrow> None
                   | Some (Some v, l, s) \<Rightarrow> Some (ReturnBeta v, l, s)
                   | Some (None, l, s) \<Rightarrow>
                       (case step_end l s of (c, l) \<Rightarrow> Some (c, l, s))))"
    by (simp add: step_def l2_def l3_def Let_def)
  have m: "?m (rebuf b z f s) = map_option (\<lambda>(r, l', s'). (r, l', rebuf b z f s')) (?m s)"
    using step_move_rebuf[OF rc rec ok] by simp
  have e1: "step rec n p l s = (if bb then Some (Break, l1, s)
        else if iter_score l2 \<ge> beta p \<and> iter_depth l2 > 1 then Some (GotoCutoff, l2, s)
        else (case ?m s of
                     None \<Rightarrow> None
                   | Some (Some v, l, s) \<Rightarrow> Some (ReturnBeta v, l, s)
                   | Some (None, l, s) \<Rightarrow>
                       (case step_end l s of (c, l) \<Rightarrow> Some (c, l, s))))"
    using eq[OF sb] .
  have e2: "step rec n p l (rebuf b z f s) = (if bb then Some (Break, l1, rebuf b z f s)
        else if iter_score l2 \<ge> beta p \<and> iter_depth l2 > 1 then Some (GotoCutoff, l2, rebuf b z f s)
        else (case ?m (rebuf b z f s) of
                     None \<Rightarrow> None
                   | Some (Some v, l, s) \<Rightarrow> Some (ReturnBeta v, l, s)
                   | Some (None, l, s) \<Rightarrow>
                       (case step_end l s of (c, l) \<Rightarrow> Some (c, l, s))))"
    using eq[of "rebuf b z f s"] sb by simp
  show ?thesis
  proof (cases "?m s")
    case None
    with e1 e2 m show ?thesis by simp
  next
    case (Some a)
    obtain r l4 s4 where a: "a = (r, l4, s4)" by (cases a)
    with Some m have m': "?m (rebuf b z f s) = Some (r, l4, rebuf b z f s4)" by simp
    obtain c5 l5 where se: "step_end l4 s4 = (c5, l5)" by (cases "step_end l4 s4")
    show ?thesis
      using e1 e2 Some a m' se by (cases r) simp_all
  qed
qed

lemma flow_rebuf_simps [simp]:
  "flow_rebuf b z f (Next l s) = Next l (rebuf b z f s)"
  "flow_rebuf b z f (Cutoff l s) = Cutoff l (rebuf b z f s)"
  "flow_rebuf b z f (Return v s) = Return v (rebuf b z f s)"
  by (simp_all add: flow_rebuf_def)

lemma ray_rebuf:
  assumes rc: "rec_comm rec b z f" and rec: "internal_ok rec"
  shows "sq_ok (castling_skip_square l) \<Longrightarrow> rebuf_ok (mode p) b z f s \<Longrightarrow>
         ray rec n p l (rebuf b z f s) = map_option (flow_rebuf b z f) (ray rec n p l s)"
proof (induction n arbitrary: l s)
  case 0
  show ?case by simp
next
  case (Suc n)
  note st = step_rebuf[OF rc rec Suc.prems(2), of n l]
  show ?case
  proof (cases "step rec n p l s")
    case None
    with st show ?thesis by simp
  next
    case (Some a)
    obtain c l1 s1 where a: "a = (c, l1, s1)" by (cases a)
    with Some have s0: "step rec n p l s = Some (c, l1, s1)" by simp
    with st have s0': "step rec n p l (rebuf b z f s) = Some (c, l1, rebuf b z f s1)" by simp
    from step_frame[OF rec Suc.prems(1) s0]
    have sk1: "sq_ok (castling_skip_square l1)"
      and fr: "(case c of ReturnBeta v \<Rightarrow> frame (mode p) s s1 \<or> committed p v s s1
          | _ \<Rightarrow> frame (mode p) s s1)" by blast+
    show ?thesis
    proof (cases c)
      case Break
      with s0 s0' show ?thesis by simp
    next
      case Continue
      with fr have "frame (mode p) s s1" by simp
      then have ok1: "rebuf_ok (mode p) b z f s1" using Suc.prems(2) by (rule rebuf_ok_frame)
      from Suc.IH[OF sk1 ok1] s0 s0' Continue show ?thesis by simp
    next
      case GotoReplay
      with fr have "frame (mode p) s s1" by simp
      then have ok1: "rebuf_ok (mode p) b z f s1" using Suc.prems(2) by (rule rebuf_ok_frame)
      have "sq_ok (castling_skip_square (ray_start l1))" by (simp add: ray_start_def sq_ok_def)
      from Suc.IH[OF this ok1] s0 s0' GotoReplay show ?thesis by simp
    next
      case GotoCutoff
      with s0 s0' show ?thesis by simp
    next
      case (ReturnBeta v)
      with s0 s0' show ?thesis by simp
    qed
  qed
qed

lemma vectors_rebuf:
  assumes rc: "rec_comm rec b z f" and rec: "internal_ok rec"
  shows "rebuf_ok (mode p) b z f s \<Longrightarrow>
         vectors rec n p l (rebuf b z f s) = map_option (flow_rebuf b z f) (vectors rec n p l s)"
proof (induction n arbitrary: l s)
  case 0
  show ?case by simp
next
  case (Suc n)
  define l1 where "l1 = next_vector l"
  have sk: "sq_ok (castling_skip_square (ray_start l1))" by (simp add: ray_start_def sq_ok_def)
  note ry = ray_rebuf[OF rc rec sk Suc.prems, of n]
  show ?case
  proof (cases "step_vector l1 = 0")
    case True
    then show ?thesis by (simp add: l1_def Let_def)
  next
    case False
    show ?thesis
    proof (cases "ray rec n p (ray_start l1) s")
      case None
      with ry False show ?thesis by (simp add: l1_def Let_def)
    next
      case (Some o1)
      from ray_frame[OF rec sk Some] have f1: "flow_ok p s o1" .
      show ?thesis
      proof (cases o1)
        case (Next l2 s2)
        with f1 have "frame (mode p) s s2" by (simp add: flow_ok_def)
        then have "rebuf_ok (mode p) b z f s2" using Suc.prems by (rule rebuf_ok_frame)
        from Suc.IH[OF this] ry Some Next False show ?thesis by (simp add: l1_def Let_def)
      next
        case (Cutoff l2 s2)
        with ry Some False show ?thesis by (simp add: l1_def Let_def)
      next
        case (Return v s2)
        with ry Some False show ?thesis by (simp add: l1_def Let_def)
      qed
    qed
  qed
qed

lemma squares_rebuf:
  assumes rc: "rec_comm rec b z f" and rec: "internal_ok rec"
  shows "rebuf_ok (mode p) b z f s \<Longrightarrow>
         squares rec n p l (rebuf b z f s) = map_option (flow_rebuf b z f) (squares rec n p l s)"
proof (induction n arbitrary: l s)
  case 0
  show ?case by simp
next
  case (Suc n)
  define l1 where "l1 = l\<lparr>scan_piece := bd s (square_from l)\<rparr>"
  define lv where "lv = l1\<lparr>scan_piece_type := scan_piece l1 AND 0b111,
                         step_vector := scan_piece l1 AND 0b111,
                         step_vector_index :=
                           mcumax_step_vectors_indices ! nat (scan_piece l1 AND 0b111)\<rparr>"
  let ?v = "\<lambda>s. (if scan_piece l1 AND mcumax_current_side s \<noteq> 0
               then vectors rec n p lv s else Some (Next l1 s))"
  have eq: "\<And>s0. bd s0 (square_from l) = bd s (square_from l) \<Longrightarrow> squares rec (Suc n) p l s0 =
     (case ?v s0 of
           None \<Rightarrow> None
         | Some (Next l s) \<Rightarrow>
             let l = l\<lparr>square_from := ((square_from l + 9) AND NOT MCUMAX_BOARD_MASK) mod 256\<rparr>
             in if square_from l \<noteq> square_start l then squares rec n p l s else Some (Next l s)
         | Some (Cutoff l s) \<Rightarrow> Some (Cutoff l s)
         | Some (Return v s) \<Rightarrow> Some (Return v s))"
    by (simp add: l1_def lv_def Let_def)
  note e1 = eq[of s, OF refl]
  have e2: "squares rec (Suc n) p l (rebuf b z f s) =
     (case ?v (rebuf b z f s) of
           None \<Rightarrow> None
         | Some (Next l s) \<Rightarrow>
             let l = l\<lparr>square_from := ((square_from l + 9) AND NOT MCUMAX_BOARD_MASK) mod 256\<rparr>
             in if square_from l \<noteq> square_start l then squares rec n p l s else Some (Next l s)
         | Some (Cutoff l s) \<Rightarrow> Some (Cutoff l s)
         | Some (Return v s) \<Rightarrow> Some (Return v s))"
    by (rule eq) simp
  have v: "?v (rebuf b z f s) = map_option (flow_rebuf b z f) (?v s)"
    using vectors_rebuf[OF rc rec Suc.prems, of n lv] by simp
  show ?case
  proof (cases "?v s")
    case None
    with v e1 e2 show ?thesis by simp
  next
    case (Some o1)
    have f1: "flow_ok p s o1"
    proof (cases "scan_piece l1 AND mcumax_current_side s \<noteq> 0")
      case True
      with Some have "vectors rec n p lv s = Some o1" by simp
      from vectors_frame[OF rec this] show ?thesis .
    next
      case False
      with Some show ?thesis by (auto simp: flow_ok_def frame_refl)
    qed
    show ?thesis
    proof (cases o1)
      case (Next l2 s2)
      with f1 have "frame (mode p) s s2" by (simp add: flow_ok_def)
      then have "rebuf_ok (mode p) b z f s2" using Suc.prems by (rule rebuf_ok_frame)
      from Suc.IH[OF this] v e1 e2 Some Next show ?thesis by (simp add: Let_def)
    next
      case (Cutoff l2 s2)
      with v e1 e2 Some show ?thesis by simp
    next
      case (Return v2 s2)
      with v e1 e2 Some show ?thesis by simp
    qed
  qed
qed

lemma scan_rebuf:
  assumes rc: "rec_comm rec b z f" and rec: "internal_ok rec"
    and ok: "rebuf_ok (mode p) b z f s"
  shows "scan rec n p l (rebuf b z f s) =
         map_option (\<lambda>(r, l', s'). (r, l', rebuf b z f s')) (scan rec n p l s)"
proof (cases "squares rec n p l s")
  case None
  with squares_rebuf[OF rc rec ok, of n l] show ?thesis by (simp add: scan_def)
next
  case (Some o1)
  with squares_rebuf[OF rc rec ok, of n l] show ?thesis
    by (cases o1) (simp_all add: scan_def)
qed

lemma null_move_rebuf:
  assumes rc: "rec_comm rec b z f"
  shows "null_move rec p l (rebuf b z f s) =
         map_option (\<lambda>(r, s'). (r, rebuf b z f s')) (null_move rec p l s)"
  using rc by (simp add: null_move_def rec_comm_def)

lemma iteration_rebuf:
  assumes rc: "rec_comm rec b z f" and rec: "internal_ok rec"
    and ok: "rebuf_ok (mode p) b z f s"
  shows "iteration rec n p l (rebuf b z f s) =
         map_option (\<lambda>(r, l', s'). (r, l', rebuf b z f s')) (iteration rec n p l s)"
proof (cases "null_move rec p (scan_start p l) (toggle_side s)")
  case None
  with null_move_rebuf[OF rc, of p "scan_start p l" "toggle_side s"] show ?thesis
    by (simp add: iteration_def)
next
  case (Some a)
  obtain v s1 where a: "a = (v, s1)" by (cases a)
  with Some have nm: "null_move rec p (scan_start p l) (toggle_side s) = Some (v, s1)" by simp
  with null_move_rebuf[OF rc, of p "scan_start p l" "toggle_side s"]
  have nm': "null_move rec p (scan_start p l) (toggle_side (rebuf b z f s)) = Some (v, rebuf b z f s1)"
    by simp
  have "unchanged (toggle_side s) s1" using null_move_frame[OF rec nm] .
  then have "frame (mode p) (toggle_side s) s1" by (rule unchanged_frame)
  then have "frame (mode p) s (toggle_side s1)" by (rule frame_toggle)
  then have "frame (mode p) s (count_node (toggle_side s1))"
    using frame_count_node frame_trans by blast
  then have ok1: "rebuf_ok (mode p) b z f (count_node (toggle_side s1))"
    using ok by (rule rebuf_ok_frame)
  from scan_rebuf[OF rc rec ok1] nm nm' show ?thesis by (simp add: iteration_def)
qed

lemma iter_cond_rebuf:
  "iter_cond p l (rebuf b z f s) =
     (case iter_cond p l s of (go, l', s') \<Rightarrow> (go, l', rebuf b z f s'))"
proof -
  define l1 where "l1 = l\<lparr>iter_depth := (iter_depth l + 1) mod 256\<rparr>"
  have eq: "\<And>s. iter_cond p l s =
     (if iter_depth l < depth p then (True, l1, s)
         else if iter_depth l1 < 3 then (True, l1, s)
         else if mode p \<noteq> MCUMAX_INTERNAL_NODE \<and> mcumax_square_from s = MCUMAX_SQUARE_INVALID then
           (if mcumax_node_count s < mcumax_node_max s \<and> iter_depth l1 \<le> mcumax_depth_max s
            then (True, l1, s)
            else (True, l1\<lparr>iter_depth := 3\<rparr>,
                  s\<lparr>mcumax_square_from := iter_square_from l1,
                    mcumax_square_to := (iter_square_to l1 AND NOT MCUMAX_BOARD_MASK) mod 256\<rparr>))
         else (False, l1, s))"
    unfolding iter_cond_def l1_def Let_def by (rule refl)
  have u: "(rebuf b z f s)\<lparr>mcumax_square_from := x, mcumax_square_to := y\<rparr> =
           rebuf b z f (s\<lparr>mcumax_square_from := x, mcumax_square_to := y\<rparr>)" for x y
    by (simp add: rebuf_def)
  show ?thesis unfolding eq[of s] eq[of "rebuf b z f s"] by (simp add: u)
qed

lemma iterate_rebuf:
  assumes rc: "rec_comm rec b z f" and rec: "internal_ok rec"
  shows "rebuf_ok (mode p) b z f s \<Longrightarrow>
         iterate rec n p l (rebuf b z f s) =
         map_option (\<lambda>(r, s'). (r, rebuf b z f s')) (iterate rec n p l s)"
proof (induction n arbitrary: l s)
  case 0
  show ?case by simp
next
  case (Suc n)
  obtain go l1 s1 where ic: "iter_cond p l s = (go, l1, s1)" by (cases "iter_cond p l s")
  then have ic': "iter_cond p l (rebuf b z f s) = (go, l1, rebuf b z f s1)"
    by (simp add: iter_cond_rebuf)
  from iter_cond_frame[OF ic] have "frame (mode p) s s1" .
  then have ok1: "rebuf_ok (mode p) b z f s1" using Suc.prems by (rule rebuf_ok_frame)
  note it = iteration_rebuf[OF rc rec ok1, of n l1]
  show ?case
  proof (cases "\<not> go \<or> mcumax_stop_search s1")
    case True
    with ic ic' show ?thesis by auto
  next
    case False
    show ?thesis
    proof (cases "iteration rec n p l1 s1")
      case None
      with it ic ic' False show ?thesis by simp
    next
      case (Some a)
      obtain ret l2 s2 where a: "a = (ret, l2, s2)" by (cases a)
      with Some have i0: "iteration rec n p l1 s1 = Some (ret, l2, s2)" by simp
      with it have i0': "iteration rec n p l1 (rebuf b z f s1) = Some (ret, l2, rebuf b z f s2)"
        by simp
      show ?thesis
      proof (cases ret)
        case None
        with iteration_frame[OF rec i0] have "frame (mode p) s1 s2" by simp
        then have "rebuf_ok (mode p) b z f s2" using ok1 by (rule rebuf_ok_frame)
        from Suc.IH[OF this] ic ic' False i0 i0' None show ?thesis by simp
      next
        case (Some w)
        with ic ic' False i0 i0' show ?thesis by simp
      qed
    qed
  qed
qed

lemma search_internal_ok: "internal_ok (mcumax_search n)"
  unfolding internal_ok_def
proof (intro allI impI)
  fix p s r s'
  assume a: "mcumax_search n p s = Some (r, s')" and m: "mode p = MCUMAX_INTERNAL_NODE"
  have "mode (adjust_window p) = mode p" by (simp add: adjust_window_def Let_def)
  with search_frame[OF a] m have "frame MCUMAX_INTERNAL_NODE s s'" by (auto simp: committed_def)
  then show "unchanged s s'" by (rule frame_internal_unchanged)
qed

lemma search_rebuf:
  "rebuf_ok (mode p) b z f s \<Longrightarrow>
   mcumax_search n p (rebuf b z f s) =
   map_option (\<lambda>(r, s'). (r, rebuf b z f s')) (mcumax_search n p s)"
proof (induction n arbitrary: p s)
  case 0
  show ?case by simp
next
  case (Suc n)
  have rc: "rec_comm (mcumax_search n) b z f"
    unfolding rec_comm_def using Suc.IH by (simp add: rebuf_ok_def)
  have md: "mode (adjust_window p) = mode p" by (simp add: adjust_window_def Let_def)
  from iterate_rebuf[OF rc search_internal_ok, of "adjust_window p" s n locals_init] Suc.prems md
  show ?case by simp
qed

subsection \<open>The en-passant square\<close>

lemma ep_field_all:
  "list_all (\<lambda>e::int. sq_ok e \<longrightarrow>
              list_all (\<lambda>k::int. sq_ok (((e AND 0x7f) OR k) mod 256) \<and>
                                  sq_ok (((e AND 0x7f) OR 16 * k) mod 256)) [0..7])
            [0..0x80]"
  unfolding sq_ok_def by code_simp

lemma ep_field:
  assumes "sq_ok e" "0 \<le> k" "k \<le> 7"
  shows "sq_ok (((e AND 0x7f) OR k) mod 256)" "sq_ok (((e AND 0x7f) OR 16 * k) mod 256)"
proof -
  have "e \<in> set [0..0x80]" using assms(1) by (auto simp: sq_ok_def)
  moreover have "k \<in> set [0..7]" using assms(2,3) by simp
  ultimately have "sq_ok (((e AND 0x7f) OR k) mod 256) \<and> sq_ok (((e AND 0x7f) OR 16 * k) mod 256)"
    using ep_field_all assms(1) unfolding list_all_iff by blast
  then show "sq_ok (((e AND 0x7f) OR k) mod 256)" "sq_ok (((e AND 0x7f) OR 16 * k) mod 256)"
    by blast+
qed

lemma fen_en_passant_ok:
  assumes "sq_ok (mcumax_en_passant_square s)"
  shows "sq_ok (mcumax_en_passant_square (fen_en_passant c s))"
  using assms
    ep_field(1)[OF assms, of 0] ep_field(1)[OF assms, of 1] ep_field(1)[OF assms, of 2]
    ep_field(1)[OF assms, of 3] ep_field(1)[OF assms, of 4] ep_field(1)[OF assms, of 5]
    ep_field(1)[OF assms, of 6] ep_field(1)[OF assms, of 7]
    ep_field(2)[OF assms, of 0] ep_field(2)[OF assms, of 1] ep_field(2)[OF assms, of 2]
    ep_field(2)[OF assms, of 3] ep_field(2)[OF assms, of 4] ep_field(2)[OF assms, of 5]
    ep_field(2)[OF assms, of 6] ep_field(2)[OF assms, of 7]
  by (auto simp: fen_en_passant_def)

lemma bd_set_ep [simp]: "mcumax_en_passant_square (bd_set i v s) = mcumax_en_passant_square s"
  by (simp add: bd_set_def)

lemma mcumax_set_piece_ep:
  "mcumax_en_passant_square (snd (mcumax_set_piece sq pc s)) = mcumax_en_passant_square s"
  by (simp add: mcumax_set_piece_def)

lemma fen_empty_ep:
  "mcumax_en_passant_square (snd (fen_empty k bi s)) = mcumax_en_passant_square s"
proof (induction k arbitrary: bi s)
  case 0
  show ?case by simp
next
  case (Suc k)
  obtain bi' s' where m: "mcumax_set_piece (bi mod 256) MCUMAX_EMPTY s = (bi', s')"
    by (cases "mcumax_set_piece (bi mod 256) MCUMAX_EMPTY s")
  with mcumax_set_piece_ep[of "bi mod 256" 0 s] have "mcumax_en_passant_square s' = mcumax_en_passant_square s"
    by simp
  with Suc.IH[of bi' s'] m show ?case by simp
qed

lemma fen_placement_ep:
  "mcumax_en_passant_square (snd (fen_placement c bi s)) = mcumax_en_passant_square s"
  by (simp add: fen_placement_def fen_empty_ep mcumax_set_piece_ep split: option.splits)

lemma fen_castling_ep:
  "mcumax_en_passant_square (fen_castling c s) = mcumax_en_passant_square s"
  by (simp add: fen_castling_def clear_moved_def)

lemma fen_char_ep:
  assumes "sq_ok (mcumax_en_passant_square (snd (snd st)))"
  shows "sq_ok (mcumax_en_passant_square (snd (snd (fen_char c st))))"
proof -
  obtain fi bi s where st: "st = (fi, bi, s)" by (cases st)
  with assms have a: "sq_ok (mcumax_en_passant_square s)" by simp
  show ?thesis
    using a fen_en_passant_ok[OF a, of c] fen_placement_ep[of c bi s]
    by (auto simp: st fen_char_def split_def fen_castling_ep)
qed

lemma fen_loop_ep:
  "sq_ok (mcumax_en_passant_square (snd (snd st))) \<Longrightarrow>
   sq_ok (mcumax_en_passant_square (snd (snd (fen_loop cs st))))"
proof (induction cs arbitrary: st)
  case Nil
  then show ?case by simp
next
  case (Cons c cs)
  from fen_char_ep[OF Cons.prems] Cons.IH Cons.prems show ?case by simp
qed

lemma init_ep: "mcumax_en_passant_square (mcumax_init s) = MCUMAX_SQUARE_INVALID"
  by (simp add: mcumax_init_def)

lemma start_search_frame:
  assumes "mcumax_start_search n md move dmax nmax s = Some (v, s')"
  shows "frame md (s\<lparr>mcumax_square_from := fst move, mcumax_square_to := snd move,
                mcumax_node_count := 0, mcumax_node_max := nmax, mcumax_depth_max := dmax,
                mcumax_stop_search := False\<rparr>) s' \<or>
         (md = MCUMAX_PLAY_MOVE \<and> sq_ok (mcumax_en_passant_square s'))"
proof -
  define s1 where "s1 = s\<lparr>mcumax_square_from := fst move, mcumax_square_to := snd move,
                mcumax_node_count := 0, mcumax_node_max := nmax, mcumax_depth_max := dmax,
                mcumax_stop_search := False\<rparr>"
  define p where "p = \<lparr>alpha = - MCUMAX_SCORE_MAX, beta = MCUMAX_SCORE_MAX, score = mcumax_score s1,
            en_passant_square = mcumax_en_passant_square s1, depth = 3, mode = md\<rparr>"
  from assms have "mcumax_search n p s1 = Some (v, s')"
    by (simp add: mcumax_start_search_def s1_def p_def Let_def)
  from search_frame[OF this] have "frame (mode p) s1 s' \<or> committed (adjust_window p) v s1 s'" .
  moreover have "mode p = md" "mode (adjust_window p) = md"
    by (simp_all add: p_def adjust_window_def Let_def)
  ultimately show ?thesis unfolding s1_def[symmetric] by (auto simp: committed_def)
qed

text \<open>
  Claim C5, as amended. After every public operation the field \<open>en_passant_square\<close>
  is \<open>MCUMAX_SQUARE_INVALID\<close> or a square of the board: \<open>mcumax_init\<close> and
  \<open>mcumax_set_fen_position\<close> establish this from any state, a \<open>mcumax_play_move\<close>
  that returns keeps it, and the two searches return with the field as it was.
  The square need not be on the third or the fourth rank.
\<close>

theorem en_passant_square_ok:
  "sq_ok (mcumax_en_passant_square (mcumax_init s0)) \<and>
   sq_ok (mcumax_en_passant_square (mcumax_set_fen_position fen_string s0)) \<and>
   (sq_ok (mcumax_en_passant_square s) \<longrightarrow>
      (\<forall>n move b s'. mcumax_play_move n move s = Some (b, s') \<longrightarrow>
         sq_ok (mcumax_en_passant_square s')) \<and>
      (\<forall>n buffer cap c s'. mcumax_search_valid_moves n buffer cap s = Some (c, s') \<longrightarrow>
         mcumax_en_passant_square s' = mcumax_en_passant_square s) \<and>
      (\<forall>n nmax dmax m s'. mcumax_search_best_move n nmax dmax s = Some (m, s') \<longrightarrow>
         mcumax_en_passant_square s' = mcumax_en_passant_square s))"
proof (intro conjI impI allI)
  have i: "sq_ok (mcumax_en_passant_square (mcumax_init s0))" for s0
    by (simp add: init_ep sq_ok_def)
  show "sq_ok (mcumax_en_passant_square (mcumax_init s0))" by (rule i)
  show "sq_ok (mcumax_en_passant_square (mcumax_set_fen_position fen_string s0))"
    unfolding mcumax_set_fen_position_def
    by (rule fen_loop_ep) (use i in simp)
next
  fix n move b s'
  assume ok: "sq_ok (mcumax_en_passant_square s)"
    and r: "mcumax_play_move n move s = Some (b, s')"
  from r obtain v where "mcumax_start_search n MCUMAX_PLAY_MOVE move 0 0 s = Some (v, s')"
    by (cases "mcumax_start_search n MCUMAX_PLAY_MOVE move 0 0 s") (auto simp: mcumax_play_move_def)
  from start_search_frame[OF this] ok show "sq_ok (mcumax_en_passant_square s')"
    by (auto simp: frame_def)
next
  fix n buffer cap c s'
  assume r: "mcumax_search_valid_moves n buffer cap s = Some (c, s')"
  define s0 where "s0 = s\<lparr>mcumax_valid_moves_num := 0,
                mcumax_valid_moves_buffer := buffer,
                mcumax_valid_moves_buffer_size := cap\<rparr>"
  from r obtain v where
    "mcumax_start_search n MCUMAX_SEARCH_VALID_MOVES MCUMAX_MOVE_INVALID 0 0 s0 = Some (v, s')"
    by (cases "mcumax_start_search n MCUMAX_SEARCH_VALID_MOVES MCUMAX_MOVE_INVALID 0 0 s0")
       (auto simp: mcumax_search_valid_moves_def s0_def Let_def)
  from start_search_frame[OF this]
  show "mcumax_en_passant_square s' = mcumax_en_passant_square s"
    by (auto simp: frame_def s0_def)
next
  fix n nmax dmax m s'
  assume r: "mcumax_search_best_move n nmax dmax s = Some (m, s')"
  from r obtain v where
    "mcumax_start_search n MCUMAX_SEARCH_BEST_MOVE MCUMAX_MOVE_INVALID ((dmax + 3) mod 2 ^ 32) nmax s
       = Some (v, s')"
    by (cases "mcumax_start_search n MCUMAX_SEARCH_BEST_MOVE MCUMAX_MOVE_INVALID ((dmax + 3) mod 2 ^ 32) nmax s")
       (auto simp: mcumax_search_best_move_def split: if_splits)
  from start_search_frame[OF this]
  show "mcumax_en_passant_square s' = mcumax_en_passant_square s"
    by (auto simp: frame_def)
qed

subsection \<open>Listing the valid moves\<close>

lemma start_search_rebuf:
  assumes "rebuf_ok md b z f s"
  shows "mcumax_start_search n md move dmax nmax (rebuf b z f s) =
         map_option (\<lambda>(r, s'). (r, rebuf b z f s')) (mcumax_start_search n md move dmax nmax s)"
proof -
  define s1 where "s1 = s\<lparr>mcumax_square_from := fst move, mcumax_square_to := snd move,
                mcumax_node_count := 0, mcumax_node_max := nmax, mcumax_depth_max := dmax,
                mcumax_stop_search := False\<rparr>"
  have e: "(rebuf b z f s)\<lparr>mcumax_square_from := fst move, mcumax_square_to := snd move,
                mcumax_node_count := 0, mcumax_node_max := nmax, mcumax_depth_max := dmax,
                mcumax_stop_search := False\<rparr> = rebuf b z f s1"
    by (simp add: rebuf_def s1_def)
  have ok: "rebuf_ok md b z f s1"
    using assms by (auto simp: rebuf_ok_def bufok_def s1_def split: option.splits)
  have f: "mcumax_score (rebuf b z f s1) = mcumax_score s1"
    "mcumax_en_passant_square (rebuf b z f s1) = mcumax_en_passant_square s1"
    by (simp_all add: rebuf_def)
  define p where "p = \<lparr>alpha = - MCUMAX_SCORE_MAX, beta = MCUMAX_SCORE_MAX, score = mcumax_score s1,
            en_passant_square = mcumax_en_passant_square s1, depth = 3, mode = md\<rparr>"
  have m: "mode p = md" by (simp add: p_def)
  have l: "mcumax_start_search n md move dmax nmax (rebuf b z f s) = mcumax_search n p (rebuf b z f s1)"
    unfolding mcumax_start_search_def Let_def e f p_def by (rule refl)
  have r: "mcumax_start_search n md move dmax nmax s = mcumax_search n p s1"
    unfolding mcumax_start_search_def Let_def s1_def p_def by (rule refl)
  from ok m have "rebuf_ok (mode p) b z f s1" by simp
  from search_rebuf[OF this] show ?thesis unfolding l r .
qed

lemma valid_moves_probe:
  assumes "buffer_holds buffer cap"
  shows "mcumax_search_valid_moves n None 0 s =
         map_option (\<lambda>(c, s'). (c, rebuf None 0 (\<lambda>x. x) s')) (mcumax_search_valid_moves n buffer cap s)"
proof -
  define s0 where "s0 = s\<lparr>mcumax_valid_moves_num := 0,
                mcumax_valid_moves_buffer := buffer,
                mcumax_valid_moves_buffer_size := cap\<rparr>"
  have e: "s\<lparr>mcumax_valid_moves_num := 0, mcumax_valid_moves_buffer := None,
             mcumax_valid_moves_buffer_size := 0\<rparr> = rebuf None 0 (\<lambda>x. x) s0"
    by (simp add: rebuf_def s0_def)
  have ok: "rebuf_ok MCUMAX_SEARCH_VALID_MOVES None 0 (\<lambda>x. x) s0"
    using assms by (simp add: rebuf_ok_def bufok_def s0_def buffer_holds_def split: option.splits)
  have l: "mcumax_search_valid_moves n None 0 s =
      (case mcumax_start_search n MCUMAX_SEARCH_VALID_MOVES MCUMAX_MOVE_INVALID 0 0
              (rebuf None 0 (\<lambda>x. x) s0) of
         None \<Rightarrow> None | Some (v, s) \<Rightarrow> Some (mcumax_valid_moves_num s, s))"
    unfolding mcumax_search_valid_moves_def Let_def e by (rule refl)
  have r: "mcumax_search_valid_moves n buffer cap s =
      (case mcumax_start_search n MCUMAX_SEARCH_VALID_MOVES MCUMAX_MOVE_INVALID 0 0 s0 of
         None \<Rightarrow> None | Some (v, s) \<Rightarrow> Some (mcumax_valid_moves_num s, s))"
    unfolding mcumax_search_valid_moves_def Let_def s0_def by (rule refl)
  show ?thesis
    unfolding l r start_search_rebuf[OF ok]
    by (cases "mcumax_start_search n MCUMAX_SEARCH_VALID_MOVES MCUMAX_MOVE_INVALID 0 0 s0")
       (auto simp: rebuf_def)
qed





subsection \<open>The start position\<close>

lemma start_position_probe:
  "map_option fst (mcumax_search_valid_moves 100 None 0 (mcumax_init mcumax_zero)) = Some 20"
  by code_simp

text \<open>
  Claim C4. From the position that \<open>mcumax_init\<close> sets up,
  \<open>mcumax_search_valid_moves\<close> returns the count 20, for every buffer that holds the
  capacity passed with it; in particular for a capacity of at least 20.
\<close>

theorem start_position_20_moves:
  "buffer_holds buffer cap \<Longrightarrow>
   map_option fst (mcumax_search_valid_moves 100 buffer cap (mcumax_init mcumax_zero)) = Some 20"
proof -
  assume h: "buffer_holds buffer cap"
  have "map_option fst (mcumax_search_valid_moves 100 buffer cap (mcumax_init mcumax_zero)) =
        map_option fst (mcumax_search_valid_moves 100 None 0 (mcumax_init mcumax_zero))"
    unfolding valid_moves_probe[OF h]
    by (cases "mcumax_search_valid_moves 100 buffer cap (mcumax_init mcumax_zero)") auto
  with start_position_probe show ?thesis by simp
qed

theorem start_position_20_moves_witness:
  "buffer_holds (Some (replicate 20 (0, 0))) 20 \<and>
   map_option fst (mcumax_search_valid_moves 100 (Some (replicate 20 (0, 0))) 20
                     (mcumax_init mcumax_zero)) = Some 20"
  using start_position_20_moves[of "Some (replicate 20 (0, 0))" 20]
  by (simp add: buffer_holds_def)

subsection \<open>The best move is a function of the position\<close>

lemma best_move_rebuf:
  "mcumax_search_best_move n nmax dmax (rebuf b z f s) =
   map_option (\<lambda>(m, s'). (m, rebuf b z f s')) (mcumax_search_best_move n nmax dmax s)"
proof -
  have ok: "rebuf_ok MCUMAX_SEARCH_BEST_MOVE b z f s" by (simp add: rebuf_ok_def)
  show ?thesis
    unfolding mcumax_search_best_move_def start_search_rebuf[OF ok]
    by (cases "mcumax_start_search n MCUMAX_SEARCH_BEST_MOVE MCUMAX_MOVE_INVALID
                 ((dmax + 3) mod 2 ^ 32) nmax s")
       (auto simp: rebuf_def)
qed

lemma start_search_resets:
  "mcumax_start_search n md move dmax nmax
     (s\<lparr>mcumax_square_from := a, mcumax_square_to := b, mcumax_node_count := c,
        mcumax_node_max := d, mcumax_depth_max := e, mcumax_stop_search := g\<rparr>) =
   mcumax_start_search n md move dmax nmax s"
  by (simp add: mcumax_start_search_def)

text \<open>
  Claim C9. With no user callback, \<open>mcumax_search_best_move\<close> is a function of its
  two arguments and of the position: the board, the side, the score, the
  en-passant square and the material count. Two states that agree on these give
  the same move and, but for the three fields of the caller's buffer, which each
  state keeps, the same state; what earlier calls left in \<open>square_from\<close>,
  \<open>square_to\<close>, \<open>node_count\<close>, \<open>node_max\<close>, \<open>depth_max\<close>, \<open>stop_search\<close> and in the
  buffer fields has no influence.
\<close>

theorem best_move_deterministic:
  assumes "mcumax_board s2 = mcumax_board s1"
    and "mcumax_current_side s2 = mcumax_current_side s1"
    and "mcumax_score s2 = mcumax_score s1"
    and "mcumax_en_passant_square s2 = mcumax_en_passant_square s1"
    and "mcumax_non_pawn_material s2 = mcumax_non_pawn_material s1"
  shows "mcumax_search_best_move n node_max depth_max s2 =
         map_option (\<lambda>(m, t). (m, t\<lparr>mcumax_valid_moves_buffer := mcumax_valid_moves_buffer s2,
                                      mcumax_valid_moves_buffer_size := mcumax_valid_moves_buffer_size s2,
                                      mcumax_valid_moves_num := mcumax_valid_moves_num s2\<rparr>))
           (mcumax_search_best_move n node_max depth_max s1)"
proof -
  define b z k where "b = mcumax_valid_moves_buffer s2" and "z = mcumax_valid_moves_buffer_size s2"
    and "k = mcumax_valid_moves_num s2"
  have e: "s2 = (rebuf b z (\<lambda>_. k) s1)\<lparr>mcumax_square_from := mcumax_square_from s2,
        mcumax_square_to := mcumax_square_to s2, mcumax_node_count := mcumax_node_count s2,
        mcumax_node_max := mcumax_node_max s2, mcumax_depth_max := mcumax_depth_max s2,
        mcumax_stop_search := mcumax_stop_search s2\<rparr>"
    using assms by (simp add: rebuf_def b_def z_def k_def)
  have "mcumax_search_best_move n node_max depth_max s2 =
        mcumax_search_best_move n node_max depth_max (rebuf b z (\<lambda>_. k) s1)"
    unfolding mcumax_search_best_move_def by (subst e) (simp only: start_search_resets)
  also have "\<dots> = map_option (\<lambda>(m, s'). (m, rebuf b z (\<lambda>_. k) s'))
                     (mcumax_search_best_move n node_max depth_max s1)"
    by (rule best_move_rebuf)
  finally show ?thesis by (simp add: rebuf_def b_def z_def k_def)
qed

subsection \<open>Null-move pruning\<close>

lemma step_begin_iter:
  assumes "step_begin p l s = (b, l1)"
  shows "iter_depth l1 = iter_depth l"
    and "iter_score l1 = iter_score l \<or> iter_score l1 = MCUMAX_SCORE_MAX"
proof -
  define sq where "sq = (if replay_move l \<noteq> 0 then iter_square_to l XOR replay_move l
                else (square_to l + step_vector l) mod 256)"
  define la where "la = l\<lparr>square_to := sq, capture_square := sq\<rparr>"
  define lb where "lb = (if en_passant_square p \<noteq> MCUMAX_SQUARE_INVALID \<and>
                       bd s (en_passant_square p) \<noteq> 0 \<and>
                       square_to la - en_passant_square p < 2 \<and>
                       en_passant_square p - square_to la < 2
                    then la\<lparr>iter_score := MCUMAX_SCORE_MAX\<rparr> else la)"
  define lc where "lc = (if scan_piece_type lb < 3 \<and> square_to lb = en_passant_square p
                    then lb\<lparr>capture_square := capture_square lb XOR 16\<rparr> else lb)"
  define ld where "ld = lc\<lparr>capture_piece := bd s (capture_square lc)\<rparr>"
  have eq: "step_begin p l s =
      (if square_to la AND MCUMAX_BOARD_MASK \<noteq> 0 then (True, la)
       else if capture_piece ld AND mcumax_current_side s \<noteq> 0 \<or>
                 (scan_piece_type ld < 3 \<and>
                  c_int ((square_to ld - square_from ld) AND 0b111 = 0) - c_int (capture_piece ld = 0) \<noteq> 0)
              then (True, ld) else (False, ld))"
    unfolding step_begin_def sq_def la_def lb_def lc_def ld_def Let_def by (rule refl)
  have a: "iter_depth la = iter_depth l" "iter_score la = iter_score l" by (simp_all add: la_def)
  have d: "iter_depth ld = iter_depth l"
    "iter_score ld = iter_score l \<or> iter_score ld = MCUMAX_SCORE_MAX"
    using a by (simp_all add: ld_def lc_def lb_def)
  have l1: "l1 = la \<or> l1 = ld" using assms eq by (auto split: if_splits)
  show "iter_depth l1 = iter_depth l" using l1 a d by auto
  show "iter_score l1 = iter_score l \<or> iter_score l1 = MCUMAX_SCORE_MAX" using l1 a d by auto
qed

lemma step_cutoff:
  assumes "beta p \<le> iter_score l" "beta p \<le> MCUMAX_SCORE_MAX" "1 < iter_depth l"
  shows "\<exists>l'. step rec n p l s = Some (Break, l', s) \<or> step rec n p l s = Some (GotoCutoff, l', s)"
proof -
  obtain b l1 where sb: "step_begin p l s = (b, l1)" by (cases "step_begin p l s")
  note i1 = step_begin_iter[OF sb]
  show ?thesis
  proof (cases b)
    case True
    with sb show ?thesis by (simp add: step_def)
  next
    case False
    have v: "beta p \<le> iter_score (step_value l1) \<and> 1 < iter_depth (step_value l1)"
      using i1 assms by (auto simp: step_value_def Let_def)
    with sb False show ?thesis by (simp add: step_def Let_def)
  qed
qed

text \<open>
  Claim C6, as amended. In an iteration with \<open>iter_depth > 2\<close> and \<open>beta\<close> other than
  \<open>-MCUMAX_SCORE_MAX\<close> the search is called with the side changed, the window
  \<open>(-beta, 1 - beta)\<close> and the depth \<open>iter_depth - 3\<close>. With \<open>v\<close> the value it
  returns, \<open>iter_score\<close> starts from \<open>-v\<close> when \<open>-v \<ge> beta\<close> and
  \<open>non_pawn_material \<le> 35\<close>, and from \<open>-MCUMAX_SCORE_MAX\<close> otherwise; so the seed that
  prunes is the negated value of the null-move search, not a static evaluation,
  and there is no pruning when \<open>non_pawn_material > 35\<close>. The pruning itself: with
  \<open>iter_score \<ge> beta\<close> and \<open>iter_depth > 1\<close> a step along a ray ends the ray or jumps
  to \<^verbatim>\<open>cutoff\<close>, and no move is made.
\<close>

theorem null_move_pruning:
  "(iter_depth l > 2 \<and> beta p \<noteq> - MCUMAX_SCORE_MAX \<longrightarrow>
      iteration rec n p l s =
        (case rec \<lparr>alpha = - beta p, beta = 1 - beta p, score = - score p,
                   en_passant_square = MCUMAX_SQUARE_INVALID,
                   depth = (iter_depth l - 3) mod 256,
                   mode = MCUMAX_INTERNAL_NODE\<rparr> (toggle_side s) of
           None \<Rightarrow> None
         | Some (v, s') \<Rightarrow>
             scan rec n p
               ((scan_start p l)\<lparr>null_move_score := v,
                  iter_score := (if beta p \<le> - v \<and> mcumax_non_pawn_material s' \<le> 35
                                 then - v else - MCUMAX_SCORE_MAX)\<rparr>)
               (count_node (toggle_side s')))) \<and>
   (beta p \<le> iter_score l \<and> beta p \<le> MCUMAX_SCORE_MAX \<and> 1 < iter_depth l \<longrightarrow>
      (\<exists>l'. step rec n p l s = Some (Break, l', s) \<or> step rec n p l s = Some (GotoCutoff, l', s)))"
proof (intro conjI impI)
  assume a: "iter_depth l > 2 \<and> beta p \<noteq> - MCUMAX_SCORE_MAX"
  have d: "iter_depth (scan_start p l) = iter_depth l" by (simp add: scan_start_def Let_def)
  have t: "mcumax_non_pawn_material (toggle_side s') = mcumax_non_pawn_material s'" for s'
    by (simp add: toggle_side_def)
  show "iteration rec n p l s =
        (case rec \<lparr>alpha = - beta p, beta = 1 - beta p, score = - score p,
                   en_passant_square = MCUMAX_SQUARE_INVALID,
                   depth = (iter_depth l - 3) mod 256,
                   mode = MCUMAX_INTERNAL_NODE\<rparr> (toggle_side s) of
           None \<Rightarrow> None
         | Some (v, s') \<Rightarrow>
             scan rec n p
               ((scan_start p l)\<lparr>null_move_score := v,
                  iter_score := (if beta p \<le> - v \<and> mcumax_non_pawn_material s' \<le> 35
                                 then - v else - MCUMAX_SCORE_MAX)\<rparr>)
               (count_node (toggle_side s')))"
    using a
    by (auto simp: iteration_def null_move_def prune_score_def d t not_less not_le
             split: option.splits)
next
  assume "beta p \<le> iter_score l \<and> beta p \<le> MCUMAX_SCORE_MAX \<and> 1 < iter_depth l"
  then show "\<exists>l'. step rec n p l s = Some (Break, l', s) \<or> step rec n p l s = Some (GotoCutoff, l', s)"
    using step_cutoff by blast
qed

theorem null_move_pruning_witness:
  "(iter_depth (locals_init\<lparr>iter_depth := 3, iter_score := - 444\<rparr>) > 2 \<and> beta \<lparr>alpha = - 8000, beta = - 5000, score = 0, en_passant_square = 0x80, depth = 3,
       mode = MCUMAX_INTERNAL_NODE\<rparr> \<noteq> - MCUMAX_SCORE_MAX) \<and>
   (beta \<lparr>alpha = - 8000, beta = - 5000, score = 0, en_passant_square = 0x80, depth = 3,
       mode = MCUMAX_INTERNAL_NODE\<rparr> \<le> iter_score (locals_init\<lparr>iter_depth := 3, iter_score := - 444\<rparr>) \<and> beta \<lparr>alpha = - 8000, beta = - 5000, score = 0, en_passant_square = 0x80, depth = 3,
       mode = MCUMAX_INTERNAL_NODE\<rparr> \<le> MCUMAX_SCORE_MAX \<and> 1 < iter_depth (locals_init\<lparr>iter_depth := 3, iter_score := - 444\<rparr>)) \<and>
   iteration (mcumax_search 100) 100 \<lparr>alpha = - 8000, beta = - 5000, score = 0, en_passant_square = 0x80, depth = 3,
       mode = MCUMAX_INTERNAL_NODE\<rparr> (locals_init\<lparr>iter_depth := 3, iter_score := - 444\<rparr>) (mcumax_set_fen_position ''4k3/8/8/8/8/8/r7/R3K3 w - - 0 1'' mcumax_zero) =
     (case (mcumax_search 100) \<lparr>alpha = - beta \<lparr>alpha = - 8000, beta = - 5000, score = 0, en_passant_square = 0x80, depth = 3,
       mode = MCUMAX_INTERNAL_NODE\<rparr>, beta = 1 - beta \<lparr>alpha = - 8000, beta = - 5000, score = 0, en_passant_square = 0x80, depth = 3,
       mode = MCUMAX_INTERNAL_NODE\<rparr>, score = - score \<lparr>alpha = - 8000, beta = - 5000, score = 0, en_passant_square = 0x80, depth = 3,
       mode = MCUMAX_INTERNAL_NODE\<rparr>,
                en_passant_square = MCUMAX_SQUARE_INVALID,
                depth = (iter_depth (locals_init\<lparr>iter_depth := 3, iter_score := - 444\<rparr>) - 3) mod 256,
                mode = MCUMAX_INTERNAL_NODE\<rparr> (toggle_side (mcumax_set_fen_position ''4k3/8/8/8/8/8/r7/R3K3 w - - 0 1'' mcumax_zero)) of
        None \<Rightarrow> None
      | Some (v, s') \<Rightarrow>
          scan (mcumax_search 100) 100 \<lparr>alpha = - 8000, beta = - 5000, score = 0, en_passant_square = 0x80, depth = 3,
       mode = MCUMAX_INTERNAL_NODE\<rparr>
            ((scan_start \<lparr>alpha = - 8000, beta = - 5000, score = 0, en_passant_square = 0x80, depth = 3,
       mode = MCUMAX_INTERNAL_NODE\<rparr> (locals_init\<lparr>iter_depth := 3, iter_score := - 444\<rparr>))\<lparr>null_move_score := v,
               iter_score := (if beta \<lparr>alpha = - 8000, beta = - 5000, score = 0, en_passant_square = 0x80, depth = 3,
       mode = MCUMAX_INTERNAL_NODE\<rparr> \<le> - v \<and> mcumax_non_pawn_material s' \<le> 35
                              then - v else - MCUMAX_SCORE_MAX)\<rparr>)
            (count_node (toggle_side s'))) \<and>
   (\<exists>l'. step (mcumax_search 100) 100 \<lparr>alpha = - 8000, beta = - 5000, score = 0, en_passant_square = 0x80, depth = 3,
       mode = MCUMAX_INTERNAL_NODE\<rparr> (locals_init\<lparr>iter_depth := 3, iter_score := - 444\<rparr>) (mcumax_set_fen_position ''4k3/8/8/8/8/8/r7/R3K3 w - - 0 1'' mcumax_zero) = Some (Break, l', (mcumax_set_fen_position ''4k3/8/8/8/8/8/r7/R3K3 w - - 0 1'' mcumax_zero)) \<or>
         step (mcumax_search 100) 100 \<lparr>alpha = - 8000, beta = - 5000, score = 0, en_passant_square = 0x80, depth = 3,
       mode = MCUMAX_INTERNAL_NODE\<rparr> (locals_init\<lparr>iter_depth := 3, iter_score := - 444\<rparr>) (mcumax_set_fen_position ''4k3/8/8/8/8/8/r7/R3K3 w - - 0 1'' mcumax_zero) = Some (GotoCutoff, l', (mcumax_set_fen_position ''4k3/8/8/8/8/8/r7/R3K3 w - - 0 1'' mcumax_zero)))"
  (is "?H1 \<and> ?H2 \<and> ?A \<and> ?B")
proof -
  have i: "(?H1 \<longrightarrow> ?A) \<and> (?H2 \<longrightarrow> ?B)" by (rule null_move_pruning)
  have h1: ?H1 by (simp add: locals_init_def)
  have h2: ?H2 by (simp add: locals_init_def)
  from i h1 h2 show ?thesis by blast
qed

text \<open>
  White to move with a rook attacked by a rook, \<open>score = 0\<close> and \<open>beta = -5000\<close>: the
  null-move search returns 444 and the iteration at depth 3 ends with
  \<open>iter_score = -444\<close>, which is not the static evaluation 0.
\<close>

theorem null_move_seed_not_static:
  "map_option fst
     (mcumax_search 100
        \<lparr>alpha = 5000, beta = 5001, score = 0, en_passant_square = 0x80, depth = 0,
          mode = MCUMAX_INTERNAL_NODE\<rparr>
        (toggle_side (mcumax_set_fen_position ''4k3/8/8/8/8/8/r7/R3K3 w - - 0 1'' mcumax_zero))) =
   Some 444 \<and>
   map_option (iter_score \<circ> fst \<circ> snd)
     (iteration (mcumax_search 100) 100
        \<lparr>alpha = - 8000, beta = - 5000, score = 0, en_passant_square = 0x80, depth = 3,
          mode = MCUMAX_INTERNAL_NODE\<rparr>
        (locals_init\<lparr>iter_depth := 3\<rparr>)
        (mcumax_set_fen_position ''4k3/8/8/8/8/8/r7/R3K3 w - - 0 1'' mcumax_zero)) =
   Some (- 444) \<and>
   score \<lparr>alpha = - 8000, beta = - 5000, score = 0, en_passant_square = 0x80, depth = 3,
          mode = MCUMAX_INTERNAL_NODE\<rparr> = 0"
  by code_simp

subsection \<open>Playing a move that exposes the king\<close>

text \<open>
  Claim C2. White king e1, bishop e2, rook h1; black king a8, rook e8, queen h8;
  white to move and not in check. \<open>mcumax_play_move\<close> plays the pinned bishop from
  \<open>0x64\<close> to \<open>0x53\<close> and returns true, and the white king is then in check from
  the rook; \<open>mcumax_search_valid_moves\<close> lists 13 moves for the same position, and
  this move is not one of them.
\<close>

theorem play_move_accepts_pinned_bishop:
  "is_in_check (mcumax_set_fen_position ''k3r2q/8/8/8/8/8/4B3/4K2R w - - 0 1'' mcumax_zero)
     MCUMAX_BOARD_WHITE = Some False \<and>
   map_option (\<lambda>(played, s'). (played, is_in_check s' MCUMAX_BOARD_WHITE))
     (mcumax_play_move 100 (0x64, 0x53)
        (mcumax_set_fen_position ''k3r2q/8/8/8/8/8/4B3/4K2R w - - 0 1'' mcumax_zero)) =
   Some (True, Some True) \<and>
   map_option (\<lambda>(c, s'). (c, map_option (\<lambda>ms. (0x64, 0x53) \<in> set ms) (mcumax_valid_moves_buffer s')))
     (mcumax_search_valid_moves 100 (Some (replicate 16 (0, 0))) 16
        (mcumax_set_fen_position ''k3r2q/8/8/8/8/8/4B3/4K2R w - - 0 1'' mcumax_zero)) =
   Some (13, Some False)"
  by code_simp

subsection \<open>Runs that the claims as stated do not allow\<close>

text \<open>
  Claim C1 as stated fails on two runs from the start position. In mode
  \<open>MCUMAX_PLAY_MOVE\<close> with the move from \<open>0x64\<close> to \<open>0x44\<close> the search returns with the
  pawn moved, the side changed and \<open>en_passant_square = 0x54\<close>. In mode
  \<open>MCUMAX_INTERNAL_NODE\<close> the cell \<open>board[0x80]\<close>, which takes the writes through
  \<open>castling_rook_square\<close> and \<open>castling_skip_square\<close> of a move that is no castling,
  is 0 at entry and 14 at return.
\<close>

theorem search_changes_engine_state:
  "map_option (\<lambda>(v, s'). (v, mcumax_current_side s', mcumax_en_passant_square s',
                             bd s' 0x64, bd s' 0x44))
     (mcumax_search 100
        \<lparr>alpha = - 8000, beta = 8000, score = 0, en_passant_square = 0x80, depth = 3,
          mode = MCUMAX_PLAY_MOVE\<rparr>
        ((mcumax_init mcumax_zero)\<lparr>mcumax_square_from := 0x64, mcumax_square_to := 0x44\<rparr>)) =
   Some (8000, 0x10, 0x54, 0, 0x29) \<and>
   (mcumax_current_side (mcumax_init mcumax_zero), mcumax_en_passant_square (mcumax_init mcumax_zero),
    bd (mcumax_init mcumax_zero) 0x64, bd (mcumax_init mcumax_zero) 0x44) = (0x08, 0x80, 0x09, 0) \<and>
   map_option (\<lambda>(v, s'). bd s' 0x80)
     (mcumax_search 100
        \<lparr>alpha = - 8000, beta = 5, score = 0, en_passant_square = 0x80, depth = 3,
          mode = MCUMAX_INTERNAL_NODE\<rparr>
        (mcumax_init mcumax_zero)) = Some 14 \<and>
   bd (mcumax_init mcumax_zero) 0x80 = 0"
  by code_simp

text \<open>
  Claim C5 as stated fails after castling, which leaves the square the king
  passed, \<open>0x75\<close> on the first rank, in \<open>en_passant_square\<close>, and after a FEN string
  whose en-passant field is \<open>h1\<close>.
\<close>

theorem en_passant_square_off_ranks:
  "map_option (\<lambda>(played, s'). (played, mcumax_en_passant_square s'))
     (mcumax_play_move 100 (0x74, 0x76)
        (mcumax_set_fen_position ''4k3/8/8/8/8/8/8/4K2R w K - 0 1'' mcumax_zero)) =
   Some (True, 0x75) \<and>
   mcumax_en_passant_square
     (mcumax_set_fen_position ''4k3/8/8/8/8/8/8/4K3 w - h1 0 1'' mcumax_zero) = 0x77"
  by code_simp

text \<open>
  Claim C7 as stated fails for a pawn on a home square of a king or rook that the
  castling field names: the black pawn loaded on \<open>0x04\<close> has its moved bit cleared
  by \<open>q\<close>, steps two squares to \<open>0x24\<close>, and \<open>en_passant_square\<close> becomes \<open>0x14\<close>.
\<close>

theorem fen_pawn_double_step:
  "bd (mcumax_set_fen_position ''4p1k1/8/8/8/8/8/8/6K1 b q - 0 1'' mcumax_zero) 0x04 =
     (MCUMAX_BOARD_BLACK OR MCUMAX_PAWN_DOWNSTREAM) \<and>
   map_option (\<lambda>(played, s'). (played, mcumax_en_passant_square s', bd s' 0x04, bd s' 0x24))
     (mcumax_play_move 100 (0x04, 0x24)
        (mcumax_set_fen_position ''4p1k1/8/8/8/8/8/8/6K1 b q - 0 1'' mcumax_zero)) =
   Some (True, 0x14, 0, MCUMAX_BOARD_BLACK OR MCUMAX_PAWN_DOWNSTREAM OR MCUMAX_PIECE_MOVED)"
  by code_simp

subsection \<open>Runs of the three operations\<close>

lemma corner_kings_return:
  "mcumax_play_move 100 (0x70, 0x60)
     (mcumax_set_fen_position ''7k/8/8/8/8/8/8/K7 w - - 0 1'' mcumax_zero) \<noteq> None \<and>
   mcumax_search_valid_moves 100 None 0
     (mcumax_set_fen_position ''7k/8/8/8/8/8/8/K7 w - - 0 1'' mcumax_zero) \<noteq> None \<and>
   mcumax_search_best_move 100 0 0
     (mcumax_set_fen_position ''7k/8/8/8/8/8/8/K7 w - - 0 1'' mcumax_zero) \<noteq> None"
  by code_simp

theorem en_passant_square_ok_witness:
  "sq_ok (mcumax_en_passant_square (mcumax_set_fen_position ''7k/8/8/8/8/8/8/K7 w - - 0 1'' mcumax_zero)) \<and>
   (\<exists>b s'. mcumax_play_move 100 (0x70, 0x60)
              (mcumax_set_fen_position ''7k/8/8/8/8/8/8/K7 w - - 0 1'' mcumax_zero) = Some (b, s') \<and>
            sq_ok (mcumax_en_passant_square s')) \<and>
   (\<exists>c s'. mcumax_search_valid_moves 100 None 0
              (mcumax_set_fen_position ''7k/8/8/8/8/8/8/K7 w - - 0 1'' mcumax_zero) = Some (c, s') \<and>
            mcumax_en_passant_square s' =
            mcumax_en_passant_square (mcumax_set_fen_position ''7k/8/8/8/8/8/8/K7 w - - 0 1'' mcumax_zero)) \<and>
   (\<exists>m s'. mcumax_search_best_move 100 0 0
              (mcumax_set_fen_position ''7k/8/8/8/8/8/8/K7 w - - 0 1'' mcumax_zero) = Some (m, s') \<and>
            mcumax_en_passant_square s' =
            mcumax_en_passant_square (mcumax_set_fen_position ''7k/8/8/8/8/8/8/K7 w - - 0 1'' mcumax_zero))"
proof -
  let ?s = "mcumax_set_fen_position ''7k/8/8/8/8/8/8/K7 w - - 0 1'' mcumax_zero"
  note t = en_passant_square_ok[where ?s0.0 = mcumax_zero
      and fen_string = "''7k/8/8/8/8/8/8/K7 w - - 0 1''" and s = ?s]
  from t have ok: "sq_ok (mcumax_en_passant_square ?s)" by blast
  from corner_kings_return obtain b s1 where
    r1: "mcumax_play_move 100 (0x70, 0x60) ?s = Some (b, s1)" by fastforce
  from corner_kings_return obtain c s2 where
    r2: "mcumax_search_valid_moves 100 None 0 ?s = Some (c, s2)" by fastforce
  from corner_kings_return obtain m s3 where
    r3: "mcumax_search_best_move 100 0 0 ?s = Some (m, s3)" by fastforce
  from t ok r1 have "sq_ok (mcumax_en_passant_square s1)" by blast
  moreover from t ok r2 have "mcumax_en_passant_square s2 = mcumax_en_passant_square ?s" by blast
  moreover from t ok r3 have "mcumax_en_passant_square s3 = mcumax_en_passant_square ?s" by blast
  ultimately show ?thesis using ok r1 r2 r3 by blast
qed

lemma two_kings_best_move:
  "map_option fst (mcumax_search_best_move 100 0 0
     (mcumax_set_fen_position ''4k3/8/8/8/8/8/8/4K3 w - - 0 1'' mcumax_zero)) = Some (0x74, 0x64)"
  by code_simp

theorem best_move_deterministic_witness:
  "map_option fst (mcumax_search_best_move 100 0 0
     ((mcumax_set_fen_position ''4k3/8/8/8/8/8/8/4K3 w - - 0 1'' mcumax_zero)
        \<lparr>mcumax_square_from := 1, mcumax_square_to := 2, mcumax_node_count := 7,
         mcumax_stop_search := True, mcumax_valid_moves_buffer := Some [(1, 2)],
         mcumax_valid_moves_buffer_size := 1, mcumax_valid_moves_num := 5\<rparr>)) =
   map_option fst (mcumax_search_best_move 100 0 0
     (mcumax_set_fen_position ''4k3/8/8/8/8/8/8/4K3 w - - 0 1'' mcumax_zero)) \<and>
   map_option fst (mcumax_search_best_move 100 0 0
     (mcumax_set_fen_position ''4k3/8/8/8/8/8/8/4K3 w - - 0 1'' mcumax_zero)) = Some (0x74, 0x64)"
proof -
  let ?s1 = "mcumax_set_fen_position ''4k3/8/8/8/8/8/8/4K3 w - - 0 1'' mcumax_zero"
  let ?s2 = "?s1\<lparr>mcumax_square_from := 1, mcumax_square_to := 2, mcumax_node_count := 7,
         mcumax_stop_search := True, mcumax_valid_moves_buffer := Some [(1, 2)],
         mcumax_valid_moves_buffer_size := 1, mcumax_valid_moves_num := 5\<rparr>"
  have "mcumax_search_best_move 100 0 0 ?s2 =
         map_option (\<lambda>(m, t). (m, t\<lparr>mcumax_valid_moves_buffer := mcumax_valid_moves_buffer ?s2,
                                      mcumax_valid_moves_buffer_size := mcumax_valid_moves_buffer_size ?s2,
                                      mcumax_valid_moves_num := mcumax_valid_moves_num ?s2\<rparr>))
           (mcumax_search_best_move 100 0 0 ?s1)"
    by (rule best_move_deterministic) simp_all
  then have "map_option fst (mcumax_search_best_move 100 0 0 ?s2) =
             map_option fst (mcumax_search_best_move 100 0 0 ?s1)"
    by (cases "mcumax_search_best_move 100 0 0 ?s1") auto
  with two_kings_best_move show ?thesis by simp
qed

end
